theory Spec2Isabelle
  imports Main "HOL-Library.Word" "HOL-Library.List_Lexorder" "HOL-Library.Signed_Division"
begin

section \<open>Substring queries over a suffix array (libsais\_wasm.c)\<close>

text \<open>
  The C file keeps a byte buffer together with its suffix array and answers
  substring queries by binary search. Values of type \<open>int32_t\<close> are modelled as
  \<open>int\<close>; the one addition that can leave the 32-bit range is wrapped explicitly
  (\<open>wrap_i32\<close>). Bytes are \<open>8 word\<close>. A pointer to an array is the list of the
  elements allocated behind it, a pointer that may be \<open>NULL\<close> is an \<open>option\<close>.
  Reading or writing outside an array is undefined behaviour in C; the model
  makes it the value \<open>Inl OutOfBounds\<close>, so that every function returns
  \<open>fault + result\<close>. What the file calls but does not define (\<open>memcmp\<close>,
  \<open>malloc\<close>, \<open>libsais\<close>) is a parameter of the function that calls it.
\<close>

subsection \<open>Memory\<close>

type_synonym uint8 = "8 word"

datatype fault = OutOfBounds

record SaisIndex =
  data :: "uint8 list"
  sa :: "int list"
  length_idx :: int

definition load :: "'a list \<Rightarrow> int \<Rightarrow> fault + 'a" where
  "load xs i = (if 0 \<le> i \<and> i < int (length xs) then Inr (xs ! nat i) else Inl OutOfBounds)"

definition store :: "'a list \<Rightarrow> int \<Rightarrow> 'a \<Rightarrow> fault + 'a list" where
  "store xs i v = (if 0 \<le> i \<and> i < int (length xs) then Inr (xs[nat i := v]) else Inl OutOfBounds)"

text \<open>Conversion of an \<open>int32_t\<close> to the 32-bit \<open>size_t\<close> of the wasm32 target.\<close>

definition size_t :: "int \<Rightarrow> nat" where
  "size_t x = nat (x mod 2 ^ 32)"

text \<open>Two's complement result of a 32-bit addition (wasm \<open>i32.add\<close>).\<close>

definition wrap_i32 :: "int \<Rightarrow> int" where
  "wrap_i32 x = (x + 2 ^ 31) mod 2 ^ 32 - 2 ^ 31"

text \<open>
  \<open>memcmp\<close> is the C library's and not part of the file: it is a parameter of
  the model, called with the bytes allocated from each of its two pointers on
  and the number of bytes to compare. ISO C fixes only the sign of its result
  (\<open>iso_memcmp\<close>): negative, zero or positive as the first \<open>n\<close> bytes of the left
  operand are less than, equal to or greater than those of the right one, read
  as \<open>unsigned char\<close>. The library that Emscripten links is musl, whose \<open>memcmp\<close>
  is \<^verbatim>\<open>for (; n && *l == *r; n--, l++, r++); return n ? *l-*r : 0;\<close>
  (\<open>musl_memcmp\<close>): the difference of the first two bytes that differ.
\<close>

type_synonym memcmp_fn = "uint8 list \<Rightarrow> uint8 list \<Rightarrow> nat \<Rightarrow> fault + int"

definition iso_memcmp :: "memcmp_fn \<Rightarrow> bool" where
  "iso_memcmp memcmp \<longleftrightarrow>
     (\<forall>l r n. n \<le> length l \<and> n \<le> length r \<longrightarrow>
        (\<exists>c. memcmp l r n = Inr c \<and>
             (c < 0 \<longleftrightarrow> take n l < take n r) \<and>
             (c = 0 \<longleftrightarrow> take n l = take n r)))"

fun musl_memcmp :: memcmp_fn where
  "musl_memcmp l r 0 = Inr 0"
| "musl_memcmp (a # l) (b # r) (Suc n) =
     (if a = b then musl_memcmp l r n else Inr (uint a - uint b))"
| "musl_memcmp l r (Suc n) = Inl OutOfBounds"

subsection \<open>Comparison and bound finding\<close>

definition compare_suffix :: "memcmp_fn \<Rightarrow> SaisIndex \<Rightarrow> int \<Rightarrow> uint8 list \<Rightarrow> int \<Rightarrow> fault + int" where
  "compare_suffix memcmp index pos needle needle_len =
     (let remaining = length_idx index - pos;
          compare_len = (if needle_len < remaining then needle_len else remaining)
      in if pos < 0 \<or> int (length (data index)) < pos then Inl OutOfBounds
         else (case memcmp (drop (nat pos) (data index)) needle (size_t compare_len) of
                 Inl e \<Rightarrow> Inl e
               | Inr cmp \<Rightarrow>
                   if cmp \<noteq> 0 then Inr cmp
                   else if remaining < needle_len then Inr (- 1)
                   else Inr 0))"

function lower_bound_loop ::
  "memcmp_fn \<Rightarrow> SaisIndex \<Rightarrow> uint8 list \<Rightarrow> int \<Rightarrow> int \<Rightarrow> int \<Rightarrow> fault + int" where
  "lower_bound_loop memcmp index needle needle_len lo hi =
     (if lo < hi then
        (let mid = lo + (hi - lo) sdiv 2 in
         case load (sa index) mid of
           Inl e \<Rightarrow> Inl e
         | Inr suffix_pos \<Rightarrow>
             (case compare_suffix memcmp index suffix_pos needle needle_len of
                Inl e \<Rightarrow> Inl e
              | Inr c \<Rightarrow>
                  if c < 0 then lower_bound_loop memcmp index needle needle_len (mid + 1) hi
                  else lower_bound_loop memcmp index needle needle_len lo mid))
      else Inr lo)"
  by pat_completeness auto

termination lower_bound_loop
  by (relation "measure (\<lambda>(memcmp, index, needle, needle_len, lo, hi). nat (hi - lo))")
     (auto simp: signed_divide_int_def)

declare lower_bound_loop.simps [simp del]

definition lower_bound :: "memcmp_fn \<Rightarrow> SaisIndex \<Rightarrow> uint8 list \<Rightarrow> int \<Rightarrow> fault + int" where
  "lower_bound memcmp index needle needle_len =
     lower_bound_loop memcmp index needle needle_len 0 (length_idx index)"

function upper_bound_loop ::
  "memcmp_fn \<Rightarrow> SaisIndex \<Rightarrow> uint8 list \<Rightarrow> int \<Rightarrow> int \<Rightarrow> int \<Rightarrow> fault + int" where
  "upper_bound_loop memcmp index needle needle_len lo hi =
     (if lo < hi then
        (let mid = lo + (hi - lo) sdiv 2 in
         case load (sa index) mid of
           Inl e \<Rightarrow> Inl e
         | Inr suffix_pos \<Rightarrow>
             (case compare_suffix memcmp index suffix_pos needle needle_len of
                Inl e \<Rightarrow> Inl e
              | Inr c \<Rightarrow>
                  if c \<le> 0 then upper_bound_loop memcmp index needle needle_len (mid + 1) hi
                  else upper_bound_loop memcmp index needle needle_len lo mid))
      else Inr lo)"
  by pat_completeness auto

termination upper_bound_loop
  by (relation "measure (\<lambda>(memcmp, index, needle, needle_len, lo, hi). nat (hi - lo))")
     (auto simp: signed_divide_int_def)

declare upper_bound_loop.simps [simp del]

definition upper_bound :: "memcmp_fn \<Rightarrow> SaisIndex \<Rightarrow> uint8 list \<Rightarrow> int \<Rightarrow> fault + int" where
  "upper_bound memcmp index needle needle_len =
     upper_bound_loop memcmp index needle needle_len 0 (length_idx index)"

subsection \<open>Queries\<close>

definition get_index_length :: "SaisIndex option \<Rightarrow> int" where
  "get_index_length index = (case index of Some idx \<Rightarrow> length_idx idx | None \<Rightarrow> 0)"

definition count_matches ::
  "memcmp_fn \<Rightarrow> SaisIndex option \<Rightarrow> uint8 list option \<Rightarrow> int \<Rightarrow> fault + int" where
  "count_matches memcmp index needle needle_len =
     (case (index, needle) of
        (Some idx, Some ndl) \<Rightarrow>
          if needle_len \<le> 0 then Inr 0
          else (case lower_bound memcmp idx ndl needle_len of
                  Inl e \<Rightarrow> Inl e
                | Inr lo \<Rightarrow>
                    (case upper_bound memcmp idx ndl needle_len of
                       Inl e \<Rightarrow> Inl e
                     | Inr hi \<Rightarrow> Inr (hi - lo)))
      | _ \<Rightarrow> Inr 0)"

text \<open>
  The \<open>for\<close> loop of \<open>find_all\<close>: \<open>i\<close> runs over the ranks from \<open>lo\<close> to \<open>hi\<close>,
  \<open>count\<close> is the number of slots of \<open>result_buffer\<close> written so far.
\<close>

function find_all_loop ::
  "SaisIndex \<Rightarrow> int \<Rightarrow> int \<Rightarrow> int \<Rightarrow> int \<Rightarrow> int \<Rightarrow> int list \<Rightarrow> int \<Rightarrow> int
     \<Rightarrow> fault + (int \<times> int list)" where
  "find_all_loop index needle_len start end_pos limit hi result_buffer i count =
     (if i < hi \<and> count < limit then
        (case load (sa index) i of
           Inl e \<Rightarrow> Inl e
         | Inr pos \<Rightarrow>
             if pos \<ge> start \<and> wrap_i32 (pos + needle_len) \<le> end_pos then
               (case store result_buffer count pos of
                  Inl e \<Rightarrow> Inl e
                | Inr rb \<Rightarrow>
                    find_all_loop index needle_len start end_pos limit hi rb (i + 1) (count + 1))
             else find_all_loop index needle_len start end_pos limit hi result_buffer (i + 1) count)
      else Inr (count, result_buffer))"
  by pat_completeness auto

termination find_all_loop
  by (relation "measure (\<lambda>(index, needle_len, start, end_pos, limit, hi, rb, i, count). nat (hi - i))")
     auto

declare find_all_loop.simps [simp del]

text \<open>
  \<open>find_all\<close> returns the number of positions written together with the
  contents of the result buffer after the call.
\<close>

definition find_all ::
  "memcmp_fn \<Rightarrow> SaisIndex option \<Rightarrow> uint8 list option \<Rightarrow> int \<Rightarrow> int \<Rightarrow> int \<Rightarrow> int \<Rightarrow> int list option \<Rightarrow> int
     \<Rightarrow> fault + (int \<times> int list option)" where
  "find_all memcmp index needle needle_len start end_pos max_count result_buffer buffer_capacity =
     (case (index, needle, result_buffer) of
        (Some idx, Some ndl, Some rb) \<Rightarrow>
          if needle_len \<le> 0 \<or> buffer_capacity \<le> 0 then Inr (0, result_buffer)
          else
            (let end1 = (if end_pos < 0 \<or> end_pos > length_idx idx then length_idx idx else end_pos);
                 start1 = (if start < 0 then 0 else start)
             in if start1 \<ge> end1 then Inr (0, result_buffer)
                else
                  (case lower_bound memcmp idx ndl needle_len of
                     Inl e \<Rightarrow> Inl e
                   | Inr lo \<Rightarrow>
                       (case upper_bound memcmp idx ndl needle_len of
                          Inl e \<Rightarrow> Inl e
                        | Inr hi \<Rightarrow>
                            (let limit = (if max_count > 0 \<and> max_count < buffer_capacity
                                          then max_count else buffer_capacity)
                             in case find_all_loop idx needle_len start1 end1 limit hi rb lo 0 of
                                  Inl e \<Rightarrow> Inl e
                                | Inr (n, rb') \<Rightarrow> Inr (n, Some rb')))))
      | _ \<Rightarrow> Inr (0, result_buffer))"

subsection \<open>Index construction\<close>

text \<open>
  \<open>malloc\<close> and \<open>libsais\<close> are not part of the file; both are parameters of the
  model. \<open>malloc_ok k\<close> tells whether the \<open>k\<close>-th allocation of the call succeeds.
  \<open>libsais T n\<close> stands for the call \<open>libsais(T, SA, n, 0, NULL)\<close>: its status and
  the entries it leaves in \<open>SA\<close>. The size of the suffix array is computed in the
  32-bit \<open>size_t\<close>; where the product wraps, the array is shorter than the
  \<open>length\<close> entries the sorter is asked to fill. The frees on the failure paths
  leave no trace in the result.
\<close>

definition memcpy :: "uint8 list \<Rightarrow> int \<Rightarrow> fault + uint8 list" where
  "memcpy src n = (if size_t n \<le> length src then Inr (take (size_t n) src) else Inl OutOfBounds)"

definition create_index ::
  "(nat \<Rightarrow> bool) \<Rightarrow> (uint8 list \<Rightarrow> int \<Rightarrow> int \<times> int list) \<Rightarrow> uint8 list \<Rightarrow> int
     \<Rightarrow> fault + SaisIndex option" where
  "create_index malloc_ok libsais buffer len =
     (if len \<le> 0 then Inr None
      else if \<not> malloc_ok 0 then Inr None
      else if \<not> malloc_ok 1 then Inr None
      else (case memcpy buffer len of
              Inl e \<Rightarrow> Inl e
            | Inr d \<Rightarrow>
                if \<not> malloc_ok 2 then Inr None
                else if size_t (len * 4) < nat len * 4 then Inl OutOfBounds
                else (case libsais d len of
                        (result, suffix_array) \<Rightarrow>
                          if result \<noteq> 0 then Inr None
                          else Inr (Some \<lparr>data = d, sa = suffix_array, length_idx = len\<rparr>))))"

subsection \<open>What the queries are specified against\<close>

text \<open>
  The memory shape of an index: \<open>length\<close> bytes of data, \<open>length\<close> entries of
  suffix array, each entry an offset into the data, and a length that fits
  \<open>int32_t\<close>.
\<close>

definition wf_index :: "SaisIndex \<Rightarrow> bool" where
  "wf_index index \<longleftrightarrow>
     0 \<le> length_idx index \<and> length_idx index < 2 ^ 31 \<and>
     int (length (data index)) = length_idx index \<and>
     int (length (sa index)) = length_idx index \<and>
     (\<forall>p \<in> set (sa index). 0 \<le> p \<and> p < length_idx index)"

definition suffix :: "SaisIndex \<Rightarrow> int \<Rightarrow> uint8 list" where
  "suffix index p = drop (nat p) (data index)"

text \<open>
  The contract of the suffix sorter: the suffix array is a permutation of the
  offsets, and the suffixes are in byte-wise lexicographic order along it (a
  suffix that is a prefix of another one comes first).
\<close>

definition valid_index :: "SaisIndex \<Rightarrow> bool" where
  "valid_index index \<longleftrightarrow>
     wf_index index \<and> distinct (sa index) \<and> sorted (map (suffix index) (sa index))"

text \<open>The needle pointer has at least \<open>needle_len\<close> bytes behind it.\<close>

definition readable :: "uint8 list \<Rightarrow> int \<Rightarrow> bool" where
  "readable needle needle_len \<longleftrightarrow> needle_len \<le> int (length needle)"

text \<open>
  A three-way comparison of a suffix with a needle as byte strings, to state the
  properties against: \<open>0\<close> when the needle is used up, negative when the suffix
  ends first or has the smaller byte where the two first differ, positive
  otherwise. Only its sign is used.
\<close>

fun lexcmp :: "uint8 list \<Rightarrow> uint8 list \<Rightarrow> int" where
  "lexcmp s [] = 0"
| "lexcmp [] (b # m) = - 1"
| "lexcmp (a # s) (b # m) = (if a = b then lexcmp s m else uint a - uint b)"

text \<open>Binary search for the first rank where a predicate on ranks stops holding.\<close>

function bisect :: "(int \<Rightarrow> bool) \<Rightarrow> int \<Rightarrow> int \<Rightarrow> int" where
  "bisect P lo hi =
     (if lo < hi then
        (let mid = lo + (hi - lo) div 2 in
         if P mid then bisect P (mid + 1) hi else bisect P lo mid)
      else lo)"
  by pat_completeness auto

termination bisect
  by (relation "measure (\<lambda>(P, lo, hi). nat (hi - lo))") auto

declare bisect.simps [simp del]

text \<open>The comparison of the suffix at a rank of the suffix array with a needle.\<close>

definition rank_cmp :: "SaisIndex \<Rightarrow> uint8 list \<Rightarrow> int \<Rightarrow> int" where
  "rank_cmp index m i = lexcmp (suffix index (sa index ! nat i)) m"

text \<open>
  A match position: the needle \<open>m\<close> occurs in the buffer at offset \<open>p\<close>. The
  naive linear scan tries every offset of the buffer.
\<close>

definition occurs_at :: "uint8 list \<Rightarrow> uint8 list \<Rightarrow> nat \<Rightarrow> bool" where
  "occurs_at buffer m p \<longleftrightarrow>
     p + length m \<le> length buffer \<and> take (length m) (drop p buffer) = m"

definition naive_count :: "uint8 list \<Rightarrow> uint8 list \<Rightarrow> nat" where
  "naive_count buffer m = length (filter (occurs_at buffer m) [0..<length buffer])"

text \<open>
  The normalized range and the effective limit of \<open>find_all\<close>, in the words of
  the specification: \<open>end\<close> below \<open>0\<close> or above \<open>n\<close> becomes \<open>n\<close>, \<open>start\<close> below
  \<open>0\<close> becomes \<open>0\<close>; the limit is \<open>min max_count capacity\<close> when \<open>max_count > 0\<close>
  and the capacity otherwise.
\<close>

definition norm_end :: "SaisIndex \<Rightarrow> int \<Rightarrow> int" where
  "norm_end index end_pos =
     (if end_pos < 0 \<or> end_pos > length_idx index then length_idx index else end_pos)"

definition norm_start :: "int \<Rightarrow> int" where
  "norm_start start = (if start < 0 then 0 else start)"

definition effective_limit :: "int \<Rightarrow> int \<Rightarrow> int" where
  "effective_limit max_count capacity =
     (if max_count > 0 then min max_count capacity else capacity)"

text \<open>
  The filter of the loop of \<open>find_all\<close>, and the suffix array entries at the ranks
  from \<open>lo\<close> up to \<open>hi\<close>, in rank order.
\<close>

definition in_range :: "int \<Rightarrow> int \<Rightarrow> int \<Rightarrow> int \<Rightarrow> bool" where
  "in_range needle_len start end_pos pos \<longleftrightarrow> start \<le> pos \<and> wrap_i32 (pos + needle_len) \<le> end_pos"

definition ranks :: "SaisIndex \<Rightarrow> int \<Rightarrow> int \<Rightarrow> int list" where
  "ranks index lo hi = map (\<lambda>k. sa index ! k) [nat lo..<nat hi]"

text \<open>
  The positions \<open>find_all\<close> is expected to write, given the two bounds: the
  entries at the ranks between them that pass the filter, cut at the limit.
\<close>

definition found :: "SaisIndex \<Rightarrow> int \<Rightarrow> int \<Rightarrow> int \<Rightarrow> int \<Rightarrow> int \<Rightarrow> int \<Rightarrow> int \<Rightarrow> int list" where
  "found index needle_len start end_pos max_count capacity lb ub =
     (if norm_start start \<ge> norm_end index end_pos then []
      else take (nat (effective_limit max_count capacity))
             (filter (in_range needle_len (norm_start start) (norm_end index end_pos))
                (ranks index lb ub)))"

subsection \<open>Two concrete indexes\<close>

definition bytes :: "string \<Rightarrow> uint8 list" where
  "bytes s = map of_char s"

definition banana_index :: SaisIndex where
  "banana_index = \<lparr>data = bytes ''banana'', sa = [5, 3, 1, 0, 4, 2], length_idx = 6\<rparr>"

definition aaaa_index :: SaisIndex where
  "aaaa_index = \<lparr>data = bytes ''aaaa'', sa = [3, 2, 1, 0], length_idx = 4\<rparr>"

section \<open>Properties\<close>

subsection \<open>Comparison\<close>

lemma uint_less_iff: "uint (a::uint8) < uint b \<longleftrightarrow> a < b"
  by (simp add: word_less_def)

lemma uint_le_iff: "uint (a::uint8) \<le> uint b \<longleftrightarrow> a \<le> b"
  by (simp add: word_le_def)

lemma uint_eq_iff: "uint (a::uint8) = uint b \<longleftrightarrow> a = b"
  by (simp add: word_uint_eq_iff)

lemmas uint_cmp = uint_less_iff uint_le_iff uint_eq_iff

lemma lexcmp_neg_iff: "lexcmp s m < 0 \<longleftrightarrow> s < m"
  by (induction s m rule: lexcmp.induct) (auto simp: uint_cmp)

lemma lexcmp_zero_iff: "lexcmp s m = 0 \<longleftrightarrow> length m \<le> length s \<and> take (length m) s = m"
  by (induction s m rule: lexcmp.induct) (auto simp: uint_cmp)

lemma lexcmp_le_mono: "s \<le> t \<Longrightarrow> lexcmp t m \<le> 0 \<Longrightarrow> lexcmp s m \<le> 0"
proof (induction s m arbitrary: t rule: lexcmp.induct)
  case (1 s)
  then show ?case by simp
next
  case (2 b m)
  then show ?case by simp
next
  case (3 a s b m)
  from \<open>a # s \<le> t\<close> obtain c t' where t: "t = c # t'" by (cases t) auto
  with 3 show ?case
    by (auto simp: uint_cmp split: if_splits)
qed

lemma lexcmp_take:
  "k = min (length s) (length m) \<Longrightarrow>
   (take k s < take k m \<longrightarrow> lexcmp s m < 0) \<and>
   (take k m < take k s \<longrightarrow> 0 < lexcmp s m) \<and>
   (take k s = take k m \<longrightarrow> lexcmp s m = (if length s < length m then - 1 else 0))"
proof (induction s m arbitrary: k rule: lexcmp.induct)
  case (1 s)
  then show ?case by simp
next
  case (2 b m)
  then show ?case by simp
next
  case (3 a s b m)
  then have k: "k = Suc (min (length s) (length m))" by simp
  show ?case
  proof (cases "a = b")
    case True
    from "3.IH" [OF True refl] True show ?thesis unfolding k by simp
  next
    case False
    then show ?thesis unfolding k by (auto simp: uint_cmp)
  qed
qed

lemma musl_memcmp_iso: "iso_memcmp musl_memcmp"
proof -
  have "\<exists>c. musl_memcmp l r n = Inr c \<and>
          (c < 0 \<longleftrightarrow> take n l < take n r) \<and> (c = 0 \<longleftrightarrow> take n l = take n r)"
    if "n \<le> length l" "n \<le> length r" for l r n
    using that
  proof (induction l r n rule: musl_memcmp.induct)
    case (1 l r)
    then show ?case by simp
  next
    case (2 a l b r n)
    show ?case
    proof (cases "a = b")
      case True
      with 2 show ?thesis by simp
    next
      case False
      then show ?thesis by (simp add: uint_cmp)
    qed
  qed simp_all
  then show ?thesis unfolding iso_memcmp_def by blast
qed

text \<open>
  The value of \<open>compare_suffix\<close>, whatever conforming \<open>memcmp\<close> is linked: its
  sign where the compared bytes differ, \<open>- 1\<close> or \<open>0\<close> where they agree.
\<close>

lemma compare_suffix_value:
  assumes iso: "iso_memcmp memcmp"
    and wf: "wf_index index" and pos: "0 \<le> pos" "pos \<le> length_idx index"
    and nl: "0 \<le> needle_len" "readable needle needle_len"
  shows "\<exists>c. compare_suffix memcmp index pos needle needle_len = Inr c \<and>
           (let cmp_len = nat (min needle_len (length_idx index - pos));
                s = take cmp_len (suffix index pos);
                m = take cmp_len needle
            in (s < m \<longrightarrow> c < 0) \<and> (m < s \<longrightarrow> 0 < c) \<and>
               (s = m \<longrightarrow> c = (if length_idx index - pos < needle_len then - 1 else 0)))"
proof -
  let ?l = "drop (nat pos) (data index)"
  let ?rem = "length_idx index - pos"
  let ?k = "if needle_len < ?rem then needle_len else ?rem"
  from wf have n: "int (length (data index)) = length_idx index" "length_idx index < 2 ^ 31"
    by (simp_all add: wf_index_def)
  from n pos have len: "int (length ?l) = ?rem"
    by auto
  from n pos nl have k: "0 \<le> ?k" "?k < 2 ^ 32"
    by auto
  then have st: "size_t ?k = nat ?k"
    by (simp add: size_t_def)
  have km: "nat ?k = nat (min needle_len ?rem)"
    by (simp add: min_def)
  from len nl have "nat ?k \<le> length ?l" "nat ?k \<le> length needle"
    by (auto simp: readable_def)
  define s where "s = take (nat ?k) ?l"
  define m where "m = take (nat ?k) needle"
  from iso \<open>nat ?k \<le> length ?l\<close> \<open>nat ?k \<le> length needle\<close>
  obtain c0 where c0: "memcmp ?l needle (nat ?k) = Inr c0"
    "c0 < 0 \<longleftrightarrow> s < m" "c0 = 0 \<longleftrightarrow> s = m"
    unfolding iso_memcmp_def s_def m_def by blast
  from n pos have nofault: "\<not> (pos < 0 \<or> int (length (data index)) < pos)"
    by simp
  define c where "c = (if c0 \<noteq> 0 then c0 else if ?rem < needle_len then - 1 else 0)"
  have res: "compare_suffix memcmp index pos needle needle_len = Inr c"
    unfolding compare_suffix_def Let_def c_def using nofault st c0(1) by simp
  have lt: "s < m \<longrightarrow> c < 0"
  proof
    assume "s < m"
    with c0(2) have "c0 < 0" by simp
    then show "c < 0" by (simp add: c_def)
  qed
  have gt: "m < s \<longrightarrow> 0 < c"
  proof
    assume g: "m < s"
    then have "\<not> s < m" "s \<noteq> m" by simp_all
    with c0(2,3) have "\<not> c0 < 0" "c0 \<noteq> 0" by simp_all
    then have "0 < c0" by linarith
    then show "0 < c" by (simp add: c_def)
  qed
  have eq: "s = m \<longrightarrow> c = (if ?rem < needle_len then - 1 else 0)"
  proof
    assume "s = m"
    with c0(3) have "c0 = 0" by simp
    then show "c = (if ?rem < needle_len then - 1 else 0)" by (simp add: c_def)
  qed
  from res lt gt eq show ?thesis
    unfolding Let_def suffix_def km [symmetric] s_def m_def by blast
qed

lemma compare_suffix_lexcmp:
  assumes iso: "iso_memcmp memcmp"
    and wf: "wf_index index" and pos: "0 \<le> pos" "pos \<le> length_idx index"
    and nl: "0 \<le> needle_len" "readable needle needle_len"
  shows "\<exists>c. compare_suffix memcmp index pos needle needle_len = Inr c \<and>
           (c < 0 \<longleftrightarrow> lexcmp (suffix index pos) (take (nat needle_len) needle) < 0) \<and>
           (c = 0 \<longleftrightarrow> lexcmp (suffix index pos) (take (nat needle_len) needle) = 0)"
proof -
  let ?s = "suffix index pos" and ?m = "take (nat needle_len) needle"
  let ?k = "nat (min needle_len (length_idx index - pos))"
  from wf pos have ls: "int (length ?s) = length_idx index - pos"
    by (auto simp: wf_index_def suffix_def)
  from nl have lm: "int (length ?m) = needle_len"
    by (simp add: readable_def)
  from ls lm have k: "?k = min (length ?s) (length ?m)" by linarith
  from lm have tm: "take ?k ?m = take ?k needle" by (simp add: min_def)
  from ls lm have sh: "length ?s < length ?m \<longleftrightarrow> length_idx index - pos < needle_len"
    by linarith
  from compare_suffix_value [OF assms] obtain c where
    res: "compare_suffix memcmp index pos needle needle_len = Inr c"
    and lt: "take ?k ?s < take ?k needle \<longrightarrow> c < 0"
    and gt: "take ?k needle < take ?k ?s \<longrightarrow> 0 < c"
    and eq: "take ?k ?s = take ?k needle \<longrightarrow>
               c = (if length_idx index - pos < needle_len then - 1 else 0)"
    unfolding Let_def by blast
  from lexcmp_take [OF k] have
    llt: "take ?k ?s < take ?k needle \<longrightarrow> lexcmp ?s ?m < 0"
    and lgt: "take ?k needle < take ?k ?s \<longrightarrow> 0 < lexcmp ?s ?m"
    and leq: "take ?k ?s = take ?k needle \<longrightarrow>
               lexcmp ?s ?m = (if length_idx index - pos < needle_len then - 1 else 0)"
    unfolding tm sh by blast+
  consider (less) "take ?k ?s < take ?k needle" | (equal) "take ?k ?s = take ?k needle"
    | (greater) "take ?k needle < take ?k ?s"
    by (rule linorder_cases)
  then have "(c < 0 \<longleftrightarrow> lexcmp ?s ?m < 0) \<and> (c = 0 \<longleftrightarrow> lexcmp ?s ?m = 0)"
  proof cases
    case less
    with lt llt show ?thesis by simp
  next
    case equal
    with eq leq show ?thesis by simp
  next
    case greater
    with gt lgt show ?thesis by simp
  qed
  with res show ?thesis by blast
qed

subsection \<open>Binary search\<close>

lemma bisect_step:
  "lo < hi \<Longrightarrow> bisect P lo hi =
     (if P (lo + (hi - lo) div 2) then bisect P (lo + (hi - lo) div 2 + 1) hi
      else bisect P lo (lo + (hi - lo) div 2))"
  by (subst bisect.simps) (simp add: Let_def)

lemma bisect_stop: "\<not> lo < hi \<Longrightarrow> bisect P lo hi = lo"
  by (subst bisect.simps) simp

lemma bisect_range: "lo \<le> hi \<Longrightarrow> lo \<le> bisect P lo hi \<and> bisect P lo hi \<le> hi"
proof (induction P lo hi rule: bisect.induct)
  case (1 P lo hi)
  show ?case
  proof (cases "lo < hi")
    case True
    define mid where "mid = lo + (hi - lo) div 2"
    from True have m: "lo \<le> mid" "mid < hi" unfolding mid_def by linarith+
    show ?thesis
    proof (cases "P mid")
      case pm: True
      have eq: "bisect P lo hi = bisect P (mid + 1) hi"
        using True pm unfolding mid_def by (simp add: bisect_step)
      from m have "mid + 1 \<le> hi" by linarith
      from "1.IH"(1) [OF True mid_def pm this]
      show ?thesis unfolding eq using m by linarith
    next
      case pm: False
      have eq: "bisect P lo hi = bisect P lo mid"
        using True pm unfolding mid_def by (simp add: bisect_step)
      from "1.IH"(2) [OF True mid_def pm m(1)]
      show ?thesis unfolding eq using m by linarith
    qed
  next
    case False
    with 1 show ?thesis by (simp add: bisect_stop)
  qed
qed

lemma bisect_partition:
  "\<forall>i j. 0 \<le> i \<and> i \<le> j \<and> j < n \<and> P j \<longrightarrow> P i \<Longrightarrow>
   0 \<le> lo \<Longrightarrow> lo \<le> hi \<Longrightarrow> hi \<le> n \<Longrightarrow>
   \<forall>i. 0 \<le> i \<and> i < lo \<longrightarrow> P i \<Longrightarrow> \<forall>i. hi \<le> i \<and> i < n \<longrightarrow> \<not> P i \<Longrightarrow>
   (\<forall>i. 0 \<le> i \<and> i < bisect P lo hi \<longrightarrow> P i) \<and> (\<forall>i. bisect P lo hi \<le> i \<and> i < n \<longrightarrow> \<not> P i)"
proof (induction P lo hi rule: bisect.induct)
  case (1 P lo hi)
  note mono = "1.prems"(1) and lo0 = "1.prems"(2) and lohi = "1.prems"(3) and hin = "1.prems"(4)
    and below = "1.prems"(5) and above = "1.prems"(6)
  show ?case
  proof (cases "lo < hi")
    case True
    define mid where "mid = lo + (hi - lo) div 2"
    from True have m: "lo \<le> mid" "mid < hi" unfolding mid_def by linarith+
    show ?thesis
    proof (cases "P mid")
      case pm: True
      have below': "\<forall>i. 0 \<le> i \<and> i < mid + 1 \<longrightarrow> P i"
      proof (intro allI impI)
        fix i assume "0 \<le> i \<and> i < mid + 1"
        with m hin pm have "0 \<le> i \<and> i \<le> mid \<and> mid < n \<and> P mid" by linarith
        with mono show "P i" by blast
      qed
      from m lo0 have b: "0 \<le> mid + 1" "mid + 1 \<le> hi" by linarith+
      have eq: "bisect P lo hi = bisect P (mid + 1) hi"
        using True pm unfolding mid_def by (simp add: bisect_step)
      from "1.IH"(1) [OF True mid_def pm mono b hin below' above]
      show ?thesis unfolding eq .
    next
      case pm: False
      have above': "\<forall>i. mid \<le> i \<and> i < n \<longrightarrow> \<not> P i"
      proof (intro allI impI notI)
        fix i assume "mid \<le> i \<and> i < n" and "P i"
        with m lo0 have "0 \<le> mid \<and> mid \<le> i \<and> i < n \<and> P i" by linarith
        with mono have "P mid" by blast
        with pm show False by simp
      qed
      from m hin have b: "lo \<le> mid" "mid \<le> n" by linarith+
      have eq: "bisect P lo hi = bisect P lo mid"
        using True pm unfolding mid_def by (simp add: bisect_step)
      from "1.IH"(2) [OF True mid_def pm mono lo0 b below above']
      show ?thesis unfolding eq .
    qed
  next
    case False
    with lohi have "bisect P lo hi = lo" "lo = hi" by (simp_all add: bisect_stop)
    with below above show ?thesis by simp
  qed
qed

lemma wf_index_nth:
  "wf_index index \<Longrightarrow> 0 \<le> i \<Longrightarrow> i < length_idx index \<Longrightarrow>
   0 \<le> sa index ! nat i \<and> sa index ! nat i < length_idx index"
proof -
  assume wf: "wf_index index" and i: "0 \<le> i" "i < length_idx index"
  from wf i have "nat i < length (sa index)" by (auto simp: wf_index_def)
  then have "sa index ! nat i \<in> set (sa index)" by (rule nth_mem)
  with wf show ?thesis by (simp add: wf_index_def)
qed

lemma load_sa:
  "wf_index index \<Longrightarrow> 0 \<le> i \<Longrightarrow> i < length_idx index \<Longrightarrow>
   load (sa index) i = Inr (sa index ! nat i)"
  by (auto simp: load_def wf_index_def)

lemma compare_suffix_rank:
  assumes "iso_memcmp memcmp" "wf_index index" "0 \<le> needle_len" "readable needle needle_len"
    and "0 \<le> i" "i < length_idx index"
  shows "\<exists>c. compare_suffix memcmp index (sa index ! nat i) needle needle_len = Inr c \<and>
           (c < 0 \<longleftrightarrow> rank_cmp index (take (nat needle_len) needle) i < 0) \<and>
           (c = 0 \<longleftrightarrow> rank_cmp index (take (nat needle_len) needle) i = 0)"
proof -
  from wf_index_nth [OF assms(2,5,6)]
  have "0 \<le> sa index ! nat i" "sa index ! nat i \<le> length_idx index" by simp_all
  from compare_suffix_lexcmp [OF assms(1,2) this assms(3,4)] show ?thesis
    by (simp add: rank_cmp_def)
qed

lemma lower_bound_loop_bisect:
  "iso_memcmp memcmp \<Longrightarrow> wf_index index \<Longrightarrow> 0 \<le> needle_len \<Longrightarrow>
   readable needle needle_len \<Longrightarrow> 0 \<le> lo \<Longrightarrow> hi \<le> length_idx index \<Longrightarrow>
   lower_bound_loop memcmp index needle needle_len lo hi =
     Inr (bisect (\<lambda>i. rank_cmp index (take (nat needle_len) needle) i < 0) lo hi)"
proof (induction memcmp index needle needle_len lo hi rule: lower_bound_loop.induct)
  case (1 memcmp index needle needle_len lo hi)
  note iso = "1.prems"(1) and wf = "1.prems"(2) and nl = "1.prems"(3,4)
    and lo0 = "1.prems"(5) and hin = "1.prems"(6)
  let ?P = "\<lambda>i. rank_cmp index (take (nat needle_len) needle) i < 0"
  show ?case
  proof (cases "lo < hi")
    case True
    define mid where "mid = lo + (hi - lo) sdiv 2"
    from True have mid_div: "mid = lo + (hi - lo) div 2"
      unfolding mid_def by (simp add: signed_divide_int_def)
    from True have m: "lo \<le> mid" "mid < hi" unfolding mid_div by linarith+
    with lo0 hin have r: "0 \<le> mid" "mid < length_idx index" by linarith+
    have ld: "load (sa index) mid = Inr (sa index ! nat mid)"
      using wf r by (rule load_sa)
    from compare_suffix_rank [OF iso wf nl r] obtain c where
      cs: "compare_suffix memcmp index (sa index ! nat mid) needle needle_len = Inr c"
      and sg: "c < 0 \<longleftrightarrow> rank_cmp index (take (nat needle_len) needle) mid < 0"
        "c = 0 \<longleftrightarrow> rank_cmp index (take (nat needle_len) needle) mid = 0"
      by blast
    from sg have pc: "?P mid \<longleftrightarrow> c < 0" by linarith
    have step: "lower_bound_loop memcmp index needle needle_len lo hi =
        (if c < 0 then lower_bound_loop memcmp index needle needle_len (mid + 1) hi
         else lower_bound_loop memcmp index needle needle_len lo mid)"
      using True by (subst lower_bound_loop.simps) (simp add: Let_def mid_def [symmetric] ld cs)
    have bstep: "bisect ?P lo hi = (if c < 0 then bisect ?P (mid + 1) hi else bisect ?P lo mid)"
      using True pc by (simp add: bisect_step mid_div [symmetric])
    show ?thesis
    proof (cases "c < 0")
      case low: True
      from r have "0 \<le> mid + 1" by linarith
      from "1.IH"(1) [OF True mid_def ld cs low iso wf nl this hin] low
      show ?thesis by (simp add: step bstep)
    next
      case high: False
      from r have "mid \<le> length_idx index" by linarith
      from "1.IH"(2) [OF True mid_def ld cs high iso wf nl lo0 this] high
      show ?thesis by (simp add: step bstep)
    qed
  next
    case False
    then show ?thesis
      by (subst lower_bound_loop.simps) (simp add: bisect_stop)
  qed
qed

lemma upper_bound_loop_bisect:
  "iso_memcmp memcmp \<Longrightarrow> wf_index index \<Longrightarrow> 0 \<le> needle_len \<Longrightarrow>
   readable needle needle_len \<Longrightarrow> 0 \<le> lo \<Longrightarrow> hi \<le> length_idx index \<Longrightarrow>
   upper_bound_loop memcmp index needle needle_len lo hi =
     Inr (bisect (\<lambda>i. rank_cmp index (take (nat needle_len) needle) i \<le> 0) lo hi)"
proof (induction memcmp index needle needle_len lo hi rule: upper_bound_loop.induct)
  case (1 memcmp index needle needle_len lo hi)
  note iso = "1.prems"(1) and wf = "1.prems"(2) and nl = "1.prems"(3,4)
    and lo0 = "1.prems"(5) and hin = "1.prems"(6)
  let ?P = "\<lambda>i. rank_cmp index (take (nat needle_len) needle) i \<le> 0"
  show ?case
  proof (cases "lo < hi")
    case True
    define mid where "mid = lo + (hi - lo) sdiv 2"
    from True have mid_div: "mid = lo + (hi - lo) div 2"
      unfolding mid_def by (simp add: signed_divide_int_def)
    from True have m: "lo \<le> mid" "mid < hi" unfolding mid_div by linarith+
    with lo0 hin have r: "0 \<le> mid" "mid < length_idx index" by linarith+
    have ld: "load (sa index) mid = Inr (sa index ! nat mid)"
      using wf r by (rule load_sa)
    from compare_suffix_rank [OF iso wf nl r] obtain c where
      cs: "compare_suffix memcmp index (sa index ! nat mid) needle needle_len = Inr c"
      and sg: "c < 0 \<longleftrightarrow> rank_cmp index (take (nat needle_len) needle) mid < 0"
        "c = 0 \<longleftrightarrow> rank_cmp index (take (nat needle_len) needle) mid = 0"
      by blast
    from sg have pc: "?P mid \<longleftrightarrow> c \<le> 0" by linarith
    have step: "upper_bound_loop memcmp index needle needle_len lo hi =
        (if c \<le> 0 then upper_bound_loop memcmp index needle needle_len (mid + 1) hi
         else upper_bound_loop memcmp index needle needle_len lo mid)"
      using True by (subst upper_bound_loop.simps) (simp add: Let_def mid_def [symmetric] ld cs)
    have bstep: "bisect ?P lo hi = (if c \<le> 0 then bisect ?P (mid + 1) hi else bisect ?P lo mid)"
      using True pc by (simp add: bisect_step mid_div [symmetric])
    show ?thesis
    proof (cases "c \<le> 0")
      case low: True
      from r have "0 \<le> mid + 1" by linarith
      from "1.IH"(1) [OF True mid_def ld cs low iso wf nl this hin] low
      show ?thesis by (simp add: step bstep)
    next
      case high: False
      from r have "mid \<le> length_idx index" by linarith
      from "1.IH"(2) [OF True mid_def ld cs high iso wf nl lo0 this] high
      show ?thesis by (simp add: step bstep)
    qed
  next
    case False
    then show ?thesis
      by (subst upper_bound_loop.simps) (simp add: bisect_stop)
  qed
qed

lemma wf_index_sizes:
  "wf_index index \<Longrightarrow>
     length (data index) = nat (length_idx index) \<and> length (sa index) = nat (length_idx index) \<and>
     0 \<le> length_idx index \<and> length_idx index < 2 ^ 31"
  by (auto simp: wf_index_def)

lemma sorted_suffix_mono:
  assumes v: "valid_index index" and ij: "0 \<le> i" "i \<le> j" "j < length_idx index"
  shows "suffix index (sa index ! nat i) \<le> suffix index (sa index ! nat j)"
proof -
  let ?xs = "map (suffix index) (sa index)"
  from v have s: "sorted ?xs" and wf: "wf_index index" by (simp_all add: valid_index_def)
  from wf_index_sizes [OF wf] ij have j: "nat j < length ?xs" and i: "nat i \<le> nat j"
    by auto
  from sorted_nth_mono [OF s i j] i j show ?thesis by simp
qed

lemma rank_cmp_neg_mono:
  assumes "valid_index index"
  shows "\<forall>i j. 0 \<le> i \<and> i \<le> j \<and> j < length_idx index \<and> rank_cmp index m j < 0
           \<longrightarrow> rank_cmp index m i < 0"
proof (intro allI impI)
  fix i j assume h: "0 \<le> i \<and> i \<le> j \<and> j < length_idx index \<and> rank_cmp index m j < 0"
  then have "suffix index (sa index ! nat i) \<le> suffix index (sa index ! nat j)"
    using sorted_suffix_mono [OF assms, of i j] by simp
  moreover from h have "suffix index (sa index ! nat j) < m"
    by (simp add: rank_cmp_def lexcmp_neg_iff)
  ultimately show "rank_cmp index m i < 0"
    by (simp add: rank_cmp_def lexcmp_neg_iff)
qed

lemma rank_cmp_le_mono:
  assumes "valid_index index"
  shows "\<forall>i j. 0 \<le> i \<and> i \<le> j \<and> j < length_idx index \<and> rank_cmp index m j \<le> 0
           \<longrightarrow> rank_cmp index m i \<le> 0"
proof (intro allI impI)
  fix i j assume h: "0 \<le> i \<and> i \<le> j \<and> j < length_idx index \<and> rank_cmp index m j \<le> 0"
  then have "suffix index (sa index ! nat i) \<le> suffix index (sa index ! nat j)"
    using sorted_suffix_mono [OF assms, of i j] by simp
  with h show "rank_cmp index m i \<le> 0"
    unfolding rank_cmp_def by (blast intro: lexcmp_le_mono)
qed

lemma lower_bound_char:
  assumes iso: "iso_memcmp memcmp" and v: "valid_index index" and nl: "0 \<le> needle_len" "readable needle needle_len"
  shows "\<exists>lb. lower_bound memcmp index needle needle_len = Inr lb \<and> 0 \<le> lb \<and> lb \<le> length_idx index \<and>
           (\<forall>i. 0 \<le> i \<and> i < length_idx index \<longrightarrow>
                (i < lb \<longleftrightarrow> rank_cmp index (take (nat needle_len) needle) i < 0))"
proof -
  let ?n = "length_idx index"
  let ?P = "\<lambda>i. rank_cmp index (take (nat needle_len) needle) i < 0"
  from v have wf: "wf_index index" by (simp add: valid_index_def)
  from wf_index_sizes [OF wf] have n0: "0 \<le> ?n" by simp
  have eq: "lower_bound memcmp index needle needle_len = Inr (bisect ?P 0 ?n)"
    unfolding lower_bound_def using iso wf nl by (rule lower_bound_loop_bisect) simp_all
  have rng: "0 \<le> bisect ?P 0 ?n \<and> bisect ?P 0 ?n \<le> ?n"
    using n0 by (rule bisect_range)
  have "(\<forall>i. 0 \<le> i \<and> i < bisect ?P 0 ?n \<longrightarrow> ?P i) \<and> (\<forall>i. bisect ?P 0 ?n \<le> i \<and> i < ?n \<longrightarrow> \<not> ?P i)"
    using rank_cmp_neg_mono [OF v] by (rule bisect_partition) (use n0 in simp_all)
  then have "\<forall>i. 0 \<le> i \<and> i < ?n \<longrightarrow> (i < bisect ?P 0 ?n \<longleftrightarrow> ?P i)"
    by (metis not_le)
  with eq rng show ?thesis by blast
qed

lemma upper_bound_char:
  assumes iso: "iso_memcmp memcmp" and v: "valid_index index" and nl: "0 \<le> needle_len" "readable needle needle_len"
  shows "\<exists>ub. upper_bound memcmp index needle needle_len = Inr ub \<and> 0 \<le> ub \<and> ub \<le> length_idx index \<and>
           (\<forall>i. 0 \<le> i \<and> i < length_idx index \<longrightarrow>
                (i < ub \<longleftrightarrow> rank_cmp index (take (nat needle_len) needle) i \<le> 0))"
proof -
  let ?n = "length_idx index"
  let ?P = "\<lambda>i. rank_cmp index (take (nat needle_len) needle) i \<le> 0"
  from v have wf: "wf_index index" by (simp add: valid_index_def)
  from wf_index_sizes [OF wf] have n0: "0 \<le> ?n" by simp
  have eq: "upper_bound memcmp index needle needle_len = Inr (bisect ?P 0 ?n)"
    unfolding upper_bound_def using iso wf nl by (rule upper_bound_loop_bisect) simp_all
  have rng: "0 \<le> bisect ?P 0 ?n \<and> bisect ?P 0 ?n \<le> ?n"
    using n0 by (rule bisect_range)
  have "(\<forall>i. 0 \<le> i \<and> i < bisect ?P 0 ?n \<longrightarrow> ?P i) \<and> (\<forall>i. bisect ?P 0 ?n \<le> i \<and> i < ?n \<longrightarrow> \<not> ?P i)"
    using rank_cmp_le_mono [OF v] by (rule bisect_partition) (use n0 in simp_all)
  then have "\<forall>i. 0 \<le> i \<and> i < ?n \<longrightarrow> (i < bisect ?P 0 ?n \<longleftrightarrow> ?P i)"
    by (metis not_le)
  with eq rng show ?thesis by blast
qed

text \<open>Both bounds together: the ranks between them are those that compare equal.\<close>

lemma bounds_char:
  assumes iso: "iso_memcmp memcmp" and v: "valid_index index" and nl: "0 \<le> needle_len" "readable needle needle_len"
  shows "\<exists>lb ub. lower_bound memcmp index needle needle_len = Inr lb \<and>
           upper_bound memcmp index needle needle_len = Inr ub \<and>
           0 \<le> lb \<and> lb \<le> ub \<and> ub \<le> length_idx index \<and>
           (\<forall>i. 0 \<le> i \<and> i < length_idx index \<longrightarrow>
                (lb \<le> i \<and> i < ub \<longleftrightarrow> rank_cmp index (take (nat needle_len) needle) i = 0))"
proof -
  let ?n = "length_idx index"
  let ?c = "rank_cmp index (take (nat needle_len) needle)"
  from lower_bound_char [OF assms] obtain lb where lb:
    "lower_bound memcmp index needle needle_len = Inr lb" "0 \<le> lb" "lb \<le> ?n"
    "\<forall>i. 0 \<le> i \<and> i < ?n \<longrightarrow> (i < lb \<longleftrightarrow> ?c i < 0)" by blast
  from upper_bound_char [OF assms] obtain ub where ub:
    "upper_bound memcmp index needle needle_len = Inr ub" "0 \<le> ub" "ub \<le> ?n"
    "\<forall>i. 0 \<le> i \<and> i < ?n \<longrightarrow> (i < ub \<longleftrightarrow> ?c i \<le> 0)" by blast
  have le: "lb \<le> ub"
  proof (rule ccontr)
    assume "\<not> lb \<le> ub"
    then have u: "0 \<le> ub \<and> ub < ?n" "ub < lb" using ub(2) lb(3) by linarith+
    from lb(4) u have "?c ub < 0" by blast
    then have "?c ub \<le> 0" by linarith
    with ub(4) u(1) have "ub < ub" by blast
    then show False by simp
  qed
  have "\<forall>i. 0 \<le> i \<and> i < ?n \<longrightarrow> (lb \<le> i \<and> i < ub \<longleftrightarrow> ?c i = 0)"
  proof (intro allI impI)
    fix i assume i: "0 \<le> i \<and> i < ?n"
    from lb(4) i have a: "i < lb \<longleftrightarrow> ?c i < 0" by blast
    from ub(4) i have b: "i < ub \<longleftrightarrow> ?c i \<le> 0" by blast
    from a b show "lb \<le> i \<and> i < ub \<longleftrightarrow> ?c i = 0" by linarith
  qed
  with lb ub le show ?thesis by blast
qed

subsection \<open>Ranks and match positions\<close>

lemma occurs_at_lexcmp:
  "p \<le> length buffer \<Longrightarrow> lexcmp (drop p buffer) m = 0 \<longleftrightarrow> occurs_at buffer m p"
  by (auto simp: lexcmp_zero_iff occurs_at_def)

lemma rank_cmp_occurs:
  assumes wf: "wf_index index" and i: "0 \<le> i" "i < length_idx index"
  shows "rank_cmp index m i = 0 \<longleftrightarrow> occurs_at (data index) m (nat (sa index ! nat i))"
proof -
  from wf_index_nth [OF wf i] wf_index_sizes [OF wf]
  have "nat (sa index ! nat i) \<le> length (data index)" by auto
  then show ?thesis by (simp add: rank_cmp_def suffix_def occurs_at_lexcmp)
qed

lemma sa_nat_perm:
  assumes v: "valid_index index"
  shows "distinct (map nat (sa index))"
    and "set (map nat (sa index)) = {0..<nat (length_idx index)}"
proof -
  from v have wf: "wf_index index" and d: "distinct (sa index)"
    by (simp_all add: valid_index_def)
  from wf have rng: "\<forall>p \<in> set (sa index). 0 \<le> p \<and> p < length_idx index"
    by (simp add: wf_index_def)
  have "inj_on nat (set (sa index))"
  proof (rule inj_onI)
    fix x y assume "x \<in> set (sa index)" "y \<in> set (sa index)" "nat x = nat y"
    with rng have "0 \<le> x" "0 \<le> y" "nat x = nat y" by auto
    then show "x = y" by linarith
  qed
  with d show dn: "distinct (map nat (sa index))"
    by (simp add: distinct_map)
  from rng have sub: "set (map nat (sa index)) \<subseteq> {0..<nat (length_idx index)}"
    by auto
  from dn have "card (set (map nat (sa index))) = length (map nat (sa index))"
    by (rule distinct_card)
  with wf_index_sizes [OF wf] have "card (set (map nat (sa index))) = card {0..<nat (length_idx index)}"
    by simp
  with sub show "set (map nat (sa index)) = {0..<nat (length_idx index)}"
    by (simp add: card_subset_eq)
qed

lemma naive_count_ranks:
  assumes v: "valid_index index"
    and lb: "0 \<le> lb" "lb \<le> ub" "ub \<le> length_idx index"
    and r: "\<forall>i. 0 \<le> i \<and> i < length_idx index \<longrightarrow>
                (lb \<le> i \<and> i < ub \<longleftrightarrow> rank_cmp index m i = 0)"
  shows "int (naive_count (data index) m) = ub - lb"
proof -
  let ?n = "nat (length_idx index)"
  let ?f = "\<lambda>k. nat (sa index ! k)"
  let ?K = "{nat lb..<nat ub}"
  let ?occ = "occurs_at (data index) m"
  from v have wf: "wf_index index" by (simp add: valid_index_def)
  note sz = wf_index_sizes [OF wf]
  note perm = sa_nat_perm [OF v]
  have occ_rank: "?occ (?f k) \<longleftrightarrow> k \<in> ?K" if "k < ?n" for k
  proof -
    from that have i: "0 \<le> int k" "int k < length_idx index" by auto
    from rank_cmp_occurs [OF wf i] r i
    have "?occ (?f k) \<longleftrightarrow> lb \<le> int k \<and> int k < ub" by simp
    also have "\<dots> \<longleftrightarrow> k \<in> ?K" using lb by auto
    finally show ?thesis .
  qed
  have img: "?f ` ?K = {p. ?occ p} \<inter> set [0..<length (data index)]"
  proof (intro equalityI subsetI)
    fix p assume "p \<in> ?f ` ?K"
    then obtain k where k: "k \<in> ?K" "p = ?f k" by blast
    with lb have kn: "k < ?n" by auto
    with sz have "sa index ! k \<in> set (sa index)" by simp
    then have "?f k \<in> set (map nat (sa index))" by simp
    with perm(2) sz have "?f k < length (data index)" by simp
    with k occ_rank [OF kn] show "p \<in> {p. ?occ p} \<inter> set [0..<length (data index)]" by simp
  next
    fix p assume "p \<in> {p. ?occ p} \<inter> set [0..<length (data index)]"
    then have p: "?occ p" "p < ?n" using sz by auto
    with perm(2) have "p \<in> set (map nat (sa index))" by simp
    then obtain k where k: "k < ?n" "p = ?f k" using sz by (auto simp: in_set_conv_nth)
    with p occ_rank [OF k(1)] show "p \<in> ?f ` ?K" by blast
  qed
  have inj: "inj_on ?f ?K"
  proof (rule inj_onI)
    fix x y assume xy: "x \<in> ?K" "y \<in> ?K" "?f x = ?f y"
    with lb sz have l: "x < length (map nat (sa index))" "y < length (map nat (sa index))" by auto
    with xy have "map nat (sa index) ! x = map nat (sa index) ! y" by simp
    with nth_eq_iff_index_eq [OF perm(1) l] show "x = y" by blast
  qed
  have "naive_count (data index) m = card ({p. ?occ p} \<inter> set [0..<length (data index)])"
    unfolding naive_count_def by (rule distinct_length_filter) simp
  also have "\<dots> = card (?f ` ?K)" by (simp only: img)
  also have "\<dots> = card ?K" using inj by (rule card_image)
  also have "\<dots> = nat ub - nat lb" by simp
  finally show ?thesis using lb by simp
qed

lemma count_matches_naive:
  assumes iso: "iso_memcmp memcmp" and v: "valid_index index" and nl: "0 < needle_len" "readable needle needle_len"
  shows "count_matches memcmp (Some index) (Some needle) needle_len =
           Inr (int (naive_count (data index) (take (nat needle_len) needle)))"
proof -
  from nl have nl0: "0 \<le> needle_len" by simp
  from bounds_char [OF iso v nl0 nl(2)] obtain lb ub where b:
    "lower_bound memcmp index needle needle_len = Inr lb"
    "upper_bound memcmp index needle needle_len = Inr ub"
    "0 \<le> lb" "lb \<le> ub" "ub \<le> length_idx index"
    "\<forall>i. 0 \<le> i \<and> i < length_idx index \<longrightarrow>
         (lb \<le> i \<and> i < ub \<longleftrightarrow> rank_cmp index (take (nat needle_len) needle) i = 0)"
    by blast
  from naive_count_ranks [OF v b(3-6)] b(1,2) nl show ?thesis
    by (simp add: count_matches_def)
qed

subsection \<open>The concrete indexes are valid\<close>

lemma valid_banana: "valid_index banana_index"
  by code_simp

lemma valid_aaaa: "valid_index aaaa_index"
  by code_simp

subsection \<open>The bounds stay in range\<close>

lemma lower_bound_loop_range:
  "lo \<le> hi \<Longrightarrow> lower_bound_loop memcmp index needle needle_len lo hi = Inr r \<Longrightarrow> lo \<le> r \<and> r \<le> hi"
proof (induction memcmp index needle needle_len lo hi rule: lower_bound_loop.induct)
  case (1 memcmp index needle needle_len lo hi)
  show ?case
  proof (cases "lo < hi")
    case True
    define mid where "mid = lo + (hi - lo) sdiv 2"
    from True have "mid = lo + (hi - lo) div 2"
      unfolding mid_def by (simp add: signed_divide_int_def)
    with True have m: "lo \<le> mid" "mid < hi" by linarith+
    from "1.prems"(2) True have "(case load (sa index) mid of
           Inl e \<Rightarrow> Inl e
         | Inr suffix_pos \<Rightarrow>
             (case compare_suffix memcmp index suffix_pos needle needle_len of
                Inl e \<Rightarrow> Inl e
              | Inr c \<Rightarrow>
                  if c < 0 then lower_bound_loop memcmp index needle needle_len (mid + 1) hi
                  else lower_bound_loop memcmp index needle needle_len lo mid)) = Inr r"
      unfolding mid_def by (subst (asm) lower_bound_loop.simps) (simp add: Let_def)
    then obtain pos c where ld: "load (sa index) mid = Inr pos"
      and cs: "compare_suffix memcmp index pos needle needle_len = Inr c"
      and rec: "(if c < 0 then lower_bound_loop memcmp index needle needle_len (mid + 1) hi
                 else lower_bound_loop memcmp index needle needle_len lo mid) = Inr r"
      by (auto split: sum.splits)
    show ?thesis
    proof (cases "c < 0")
      case neg: True
      from m have "mid + 1 \<le> hi" by linarith
      moreover from rec neg have "lower_bound_loop memcmp index needle needle_len (mid + 1) hi = Inr r"
        by simp
      ultimately have "mid + 1 \<le> r \<and> r \<le> hi"
        by (rule "1.IH"(1) [OF True mid_def ld cs neg])
      with m show ?thesis by linarith
    next
      case nneg: False
      from rec nneg have "lower_bound_loop memcmp index needle needle_len lo mid = Inr r"
        by simp
      with m(1) have "lo \<le> r \<and> r \<le> mid"
        by (rule "1.IH"(2) [OF True mid_def ld cs nneg])
      with m show ?thesis by linarith
    qed
  next
    case False
    with "1.prems" show ?thesis
      by (subst (asm) lower_bound_loop.simps) simp
  qed
qed

lemma upper_bound_loop_range:
  "lo \<le> hi \<Longrightarrow> upper_bound_loop memcmp index needle needle_len lo hi = Inr r \<Longrightarrow> lo \<le> r \<and> r \<le> hi"
proof (induction memcmp index needle needle_len lo hi rule: upper_bound_loop.induct)
  case (1 memcmp index needle needle_len lo hi)
  show ?case
  proof (cases "lo < hi")
    case True
    define mid where "mid = lo + (hi - lo) sdiv 2"
    from True have "mid = lo + (hi - lo) div 2"
      unfolding mid_def by (simp add: signed_divide_int_def)
    with True have m: "lo \<le> mid" "mid < hi" by linarith+
    from "1.prems"(2) True have "(case load (sa index) mid of
           Inl e \<Rightarrow> Inl e
         | Inr suffix_pos \<Rightarrow>
             (case compare_suffix memcmp index suffix_pos needle needle_len of
                Inl e \<Rightarrow> Inl e
              | Inr c \<Rightarrow>
                  if c \<le> 0 then upper_bound_loop memcmp index needle needle_len (mid + 1) hi
                  else upper_bound_loop memcmp index needle needle_len lo mid)) = Inr r"
      unfolding mid_def by (subst (asm) upper_bound_loop.simps) (simp add: Let_def)
    then obtain pos c where ld: "load (sa index) mid = Inr pos"
      and cs: "compare_suffix memcmp index pos needle needle_len = Inr c"
      and rec: "(if c \<le> 0 then upper_bound_loop memcmp index needle needle_len (mid + 1) hi
                 else upper_bound_loop memcmp index needle needle_len lo mid) = Inr r"
      by (auto split: sum.splits)
    show ?thesis
    proof (cases "c \<le> 0")
      case le: True
      from m have "mid + 1 \<le> hi" by linarith
      moreover from rec le have "upper_bound_loop memcmp index needle needle_len (mid + 1) hi = Inr r"
        by simp
      ultimately have "mid + 1 \<le> r \<and> r \<le> hi"
        by (rule "1.IH"(1) [OF True mid_def ld cs le])
      with m show ?thesis by linarith
    next
      case gt: False
      from rec gt have "upper_bound_loop memcmp index needle needle_len lo mid = Inr r"
        by simp
      with m(1) have "lo \<le> r \<and> r \<le> mid"
        by (rule "1.IH"(2) [OF True mid_def ld cs gt])
      with m show ?thesis by linarith
    qed
  next
    case False
    with "1.prems" show ?thesis
      by (subst (asm) upper_bound_loop.simps) simp
  qed
qed

lemma bounds_return:
  assumes iso: "iso_memcmp memcmp" and wf: "wf_index index" and nl: "0 \<le> needle_len" "readable needle needle_len"
  shows "\<exists>lb ub. lower_bound memcmp index needle needle_len = Inr lb \<and>
           upper_bound memcmp index needle needle_len = Inr ub \<and>
           0 \<le> lb \<and> lb \<le> length_idx index \<and> 0 \<le> ub \<and> ub \<le> length_idx index"
proof -
  let ?n = "length_idx index"
  let ?P = "\<lambda>i. rank_cmp index (take (nat needle_len) needle) i < 0"
  let ?Q = "\<lambda>i. rank_cmp index (take (nat needle_len) needle) i \<le> 0"
  from wf_index_sizes [OF wf] have n0: "0 \<le> ?n" by simp
  have l: "lower_bound memcmp index needle needle_len = Inr (bisect ?P 0 ?n)"
    unfolding lower_bound_def using iso wf nl by (rule lower_bound_loop_bisect) simp_all
  have u: "upper_bound memcmp index needle needle_len = Inr (bisect ?Q 0 ?n)"
    unfolding upper_bound_def using iso wf nl by (rule upper_bound_loop_bisect) simp_all
  from bisect_range [OF n0, of ?P] bisect_range [OF n0, of ?Q] l u show ?thesis by blast
qed

subsection \<open>The enumeration loop\<close>

lemma ranks_empty: "hi \<le> i \<Longrightarrow> ranks index i hi = []"
  by (simp add: ranks_def)

lemma ranks_step: "0 \<le> i \<Longrightarrow> i < hi \<Longrightarrow> ranks index i hi = sa index ! nat i # ranks index (i + 1) hi"
proof -
  assume i: "0 \<le> i" "i < hi"
  then have "nat i < nat hi" "nat (i + 1) = Suc (nat i)" by linarith+
  then show ?thesis by (simp add: ranks_def upt_conv_Cons)
qed

lemma find_all_loop_char:
  "wf_index index \<Longrightarrow> 0 \<le> i \<Longrightarrow> hi \<le> length_idx index \<Longrightarrow>
   0 \<le> count \<Longrightarrow> count \<le> limit \<Longrightarrow> limit \<le> int (length result_buffer) \<Longrightarrow>
   find_all_loop index needle_len start end_pos limit hi result_buffer i count =
     (let out = take (nat (limit - count))
                  (filter (in_range needle_len start end_pos) (ranks index i hi))
      in Inr (count + int (length out),
              take (nat count) result_buffer @ out @
                drop (nat count + length out) result_buffer))"
proof (induction index needle_len start end_pos limit hi result_buffer i count
    rule: find_all_loop.induct)
  case (1 index needle_len start end_pos limit hi rb i count)
  note wf = "1.prems"(1) and i0 = "1.prems"(2) and hin = "1.prems"(3)
    and c0 = "1.prems"(4) and cl = "1.prems"(5) and lim = "1.prems"(6)
  let ?ok = "in_range needle_len start end_pos"
  show ?case
  proof (cases "i < hi \<and> count < limit")
    case True
    then have ih: "i < hi" and cnt: "count < limit" by simp_all
    define pos where "pos = sa index ! nat i"
    from i0 ih hin have r: "0 \<le> i" "i < length_idx index" by linarith+
    have ld: "load (sa index) i = Inr pos"
      unfolding pos_def using wf r by (rule load_sa)
    have rk: "ranks index i hi = pos # ranks index (i + 1) hi"
      unfolding pos_def using i0 ih by (rule ranks_step)
    from cnt have lc: "nat (limit - count) = Suc (nat (limit - (count + 1)))" by linarith
    show ?thesis
    proof (cases "?ok pos")
      case ok: True
      define rb' where "rb' = rb[nat count := pos]"
      from c0 cnt lim have cn: "nat count < length rb" by linarith
      with c0 have st: "store rb count pos = Inr rb'"
        by (simp add: store_def rb'_def)
      from ok have ok': "pos \<ge> start \<and> wrap_i32 (pos + needle_len) \<le> end_pos"
        by (simp add: in_range_def)
      have step: "find_all_loop index needle_len start end_pos limit hi rb i count =
          find_all_loop index needle_len start end_pos limit hi rb' (i + 1) (count + 1)"
        using True ok' by (subst find_all_loop.simps) (simp add: ld st)
      from i0 c0 cnt lim have p: "0 \<le> i + 1" "0 \<le> count + 1" "count + 1 \<le> limit"
        "limit \<le> int (length rb')" by (simp_all add: rb'_def)
      define out' where "out' = take (nat (limit - (count + 1))) (filter ?ok (ranks index (i + 1) hi))"
      from "1.IH"(1) [OF True ld ok' st wf p(1) hin p(2,3,4)]
      have rec: "find_all_loop index needle_len start end_pos limit hi rb' (i + 1) (count + 1) =
          Inr (count + 1 + int (length out'),
               take (nat (count + 1)) rb' @ out' @ drop (nat (count + 1) + length out') rb')"
        by (simp add: Let_def out'_def)
      have out: "take (nat (limit - count)) (filter ?ok (ranks index i hi)) = pos # out'"
        unfolding rk lc out'_def using ok by simp
      from c0 have nc: "nat (count + 1) = Suc (nat count)" by linarith
      have t: "take (nat (count + 1)) rb' = take (nat count) rb @ [pos]"
        unfolding nc rb'_def using cn by (simp add: take_Suc_conv_app_nth)
      have d: "drop (nat (count + 1) + length out') rb' = drop (nat count + length (pos # out')) rb"
        unfolding nc rb'_def by simp
      show ?thesis
        unfolding step rec Let_def out t d by simp
    next
      case nok: False
      then have nok': "\<not> (pos \<ge> start \<and> wrap_i32 (pos + needle_len) \<le> end_pos)"
        by (simp add: in_range_def)
      have step: "find_all_loop index needle_len start end_pos limit hi rb i count =
          find_all_loop index needle_len start end_pos limit hi rb (i + 1) count"
        using True nok' by (subst find_all_loop.simps) (auto simp: ld)
      from i0 have p: "0 \<le> i + 1" by simp
      have out: "filter ?ok (ranks index i hi) = filter ?ok (ranks index (i + 1) hi)"
        unfolding rk using nok by simp
      from "1.IH"(2) [OF True ld nok' wf p hin c0 cl lim]
      show ?thesis unfolding step out .
    qed
  next
    case False
    then have stop: "find_all_loop index needle_len start end_pos limit hi rb i count = Inr (count, rb)"
      by (subst find_all_loop.simps) (simp only: if_False)
    from False cl have "hi \<le> i \<or> count = limit" by linarith
    then have e: "take (nat (limit - count)) (filter ?ok (ranks index i hi)) = []"
      by (auto simp: ranks_empty)
    show ?thesis unfolding stop Let_def e by simp
  qed
qed

lemma find_all_loop_frame:
  "0 \<le> count \<Longrightarrow> count \<le> limit \<Longrightarrow>
   find_all_loop index needle_len start end_pos limit hi result_buffer i count = Inr (r, rb') \<Longrightarrow>
   count \<le> r \<and> r \<le> limit \<and> length rb' = length result_buffer \<and>
   drop (nat r) rb' = drop (nat r) result_buffer"
proof (induction index needle_len start end_pos limit hi result_buffer i count
    rule: find_all_loop.induct)
  case (1 index needle_len start end_pos limit hi rb i count)
  note c0 = "1.prems"(1) and cl = "1.prems"(2) and res = "1.prems"(3)
  show ?case
  proof (cases "i < hi \<and> count < limit")
    case True
    from res True have "(case load (sa index) i of
           Inl e \<Rightarrow> Inl e
         | Inr pos \<Rightarrow>
             if pos \<ge> start \<and> wrap_i32 (pos + needle_len) \<le> end_pos then
               (case store rb count pos of
                  Inl e \<Rightarrow> Inl e
                | Inr rb \<Rightarrow>
                    find_all_loop index needle_len start end_pos limit hi rb (i + 1) (count + 1))
             else find_all_loop index needle_len start end_pos limit hi rb (i + 1) count)
        = Inr (r, rb')"
      by (subst (asm) find_all_loop.simps) (simp only: simp_thms if_True)
    then obtain pos where ld: "load (sa index) i = Inr pos"
      and body: "(if pos \<ge> start \<and> wrap_i32 (pos + needle_len) \<le> end_pos then
               (case store rb count pos of
                  Inl e \<Rightarrow> Inl e
                | Inr rb \<Rightarrow>
                    find_all_loop index needle_len start end_pos limit hi rb (i + 1) (count + 1))
             else find_all_loop index needle_len start end_pos limit hi rb (i + 1) count)
        = Inr (r, rb')"
      by (auto split: sum.splits)
    show ?thesis
    proof (cases "pos \<ge> start \<and> wrap_i32 (pos + needle_len) \<le> end_pos")
      case ok: True
      with body obtain rb1 where st: "store rb count pos = Inr rb1"
        and rec: "find_all_loop index needle_len start end_pos limit hi rb1 (i + 1) (count + 1)
                    = Inr (r, rb')"
        by (auto split: sum.splits)
      from st have rb1: "rb1 = rb[nat count := pos]"
        by (auto simp: store_def split: if_splits)
      from c0 True have p: "0 \<le> count + 1" "count + 1 \<le> limit" by linarith+
      from "1.IH"(1) [OF True ld ok st p rec]
      have ih: "count + 1 \<le> r" "r \<le> limit" "length rb' = length rb1"
        "drop (nat r) rb' = drop (nat r) rb1" by simp_all
      from ih(1) c0 have "nat count < nat r" by linarith
      then have "drop (nat r) rb1 = drop (nat r) rb"
        unfolding rb1 by simp
      with ih rb1 show ?thesis by simp
    next
      case nok: False
      with body have rec: "find_all_loop index needle_len start end_pos limit hi rb (i + 1) count
                    = Inr (r, rb')"
        by simp
      from "1.IH"(2) [OF True ld nok c0 cl rec] show ?thesis .
    qed
  next
    case False
    with res have "Inr (count, rb) = Inr (r, rb')"
      by (subst (asm) find_all_loop.simps) simp
    with cl show ?thesis by simp
  qed
qed

lemma wrap_i32_id: "- (2 ^ 31) \<le> x \<Longrightarrow> x < 2 ^ 31 \<Longrightarrow> wrap_i32 x = x"
  by (simp add: wrap_i32_def)

lemma ranks_mem:
  "0 \<le> lo \<Longrightarrow> p \<in> set (ranks index lo hi) \<longleftrightarrow> (\<exists>i. lo \<le> i \<and> i < hi \<and> p = sa index ! nat i)"
proof
  assume lo: "0 \<le> lo" and "p \<in> set (ranks index lo hi)"
  then obtain k where k: "nat lo \<le> k" "k < nat hi" "p = sa index ! k"
    by (auto simp: ranks_def)
  then have "lo \<le> int k" "int k < hi" by linarith+
  with k(3) have "lo \<le> int k \<and> int k < hi \<and> p = sa index ! nat (int k)" by simp
  then show "\<exists>i. lo \<le> i \<and> i < hi \<and> p = sa index ! nat i" by blast
next
  assume lo: "0 \<le> lo" and "\<exists>i. lo \<le> i \<and> i < hi \<and> p = sa index ! nat i"
  then obtain i where i: "lo \<le> i" "i < hi" "p = sa index ! nat i" by blast
  with lo have "nat i \<in> set [nat lo..<nat hi]" by simp
  with i(3) show "p \<in> set (ranks index lo hi)"
    unfolding ranks_def by (simp only: set_map) blast
qed

lemma find_all_unfold:
  assumes "0 < needle_len" and "0 < buffer_capacity"
  shows "find_all memcmp (Some idx) (Some ndl) needle_len start end_pos max_count (Some rb) buffer_capacity =
     (if norm_start start \<ge> norm_end idx end_pos then Inr (0, Some rb)
      else (case lower_bound memcmp idx ndl needle_len of
              Inl e \<Rightarrow> Inl e
            | Inr lo \<Rightarrow>
                (case upper_bound memcmp idx ndl needle_len of
                   Inl e \<Rightarrow> Inl e
                 | Inr hi \<Rightarrow>
                     (case find_all_loop idx needle_len (norm_start start) (norm_end idx end_pos)
                             (effective_limit max_count buffer_capacity) hi rb lo 0 of
                        Inl e \<Rightarrow> Inl e
                      | Inr (n, rb') \<Rightarrow> Inr (n, Some rb')))))"
proof -
  have e: "(if max_count > 0 \<and> max_count < buffer_capacity then max_count else buffer_capacity) =
      effective_limit max_count buffer_capacity"
    by (simp add: effective_limit_def)
  show ?thesis
    unfolding find_all_def Let_def e norm_start_def [symmetric] norm_end_def [symmetric]
    using assms by simp
qed

lemma effective_limit_bounds:
  "0 < capacity \<Longrightarrow> 0 < effective_limit max_count capacity \<and>
     effective_limit max_count capacity \<le> capacity"
  by (simp add: effective_limit_def)

lemma find_all_found:
  assumes wf: "wf_index idx" and nl: "0 < needle_len"
    and cap: "0 < buffer_capacity" "buffer_capacity \<le> int (length rb)"
    and lb: "lower_bound memcmp idx ndl needle_len = Inr lb" "0 \<le> lb"
    and ub: "upper_bound memcmp idx ndl needle_len = Inr ub" "ub \<le> length_idx idx"
  shows "find_all memcmp (Some idx) (Some ndl) needle_len start end_pos max_count (Some rb) buffer_capacity =
     Inr (int (length (found idx needle_len start end_pos max_count buffer_capacity lb ub)),
          Some (found idx needle_len start end_pos max_count buffer_capacity lb ub @
                drop (length (found idx needle_len start end_pos max_count buffer_capacity lb ub)) rb))"
proof (cases "norm_start start \<ge> norm_end idx end_pos")
  case True
  then show ?thesis
    unfolding find_all_unfold [OF nl cap(1)] by (simp add: found_def)
next
  case False
  let ?lim = "effective_limit max_count buffer_capacity"
  from effective_limit_bounds [OF cap(1), of max_count] cap(2)
  have l: "0 \<le> ?lim" "?lim \<le> int (length rb)" by linarith+
  have z: "(0::int) \<le> 0" by simp
  from find_all_loop_char [OF wf lb(2) ub(2) z l, of needle_len "norm_start start"
      "norm_end idx end_pos"] False
  have "find_all_loop idx needle_len (norm_start start) (norm_end idx end_pos) ?lim ub rb lb 0 =
      Inr (int (length (found idx needle_len start end_pos max_count buffer_capacity lb ub)),
           found idx needle_len start end_pos max_count buffer_capacity lb ub @
           drop (length (found idx needle_len start end_pos max_count buffer_capacity lb ub)) rb)"
    by (simp add: Let_def found_def)
  with False lb(1) ub(1) show ?thesis
    unfolding find_all_unfold [OF nl cap(1)] by simp
qed

lemma found_subset:
  assumes wf: "wf_index idx" and lb: "0 \<le> lb" and ub: "ub \<le> length_idx idx"
  shows "set (found idx needle_len start end_pos max_count capacity lb ub) \<subseteq> set (sa idx)"
proof
  fix p assume "p \<in> set (found idx needle_len start end_pos max_count capacity lb ub)"
  then have "p \<in> set (ranks idx lb ub)"
    by (auto simp: found_def split: if_splits dest: in_set_takeD)
  with ranks_mem [OF lb] obtain i where i: "lb \<le> i" "i < ub" "p = sa idx ! nat i" by blast
  with lb ub wf_index_sizes [OF wf] have "nat i < length (sa idx)" by linarith
  with i(3) show "p \<in> set (sa idx)" by simp
qed

lemma occurs_at_bound:
  assumes wf: "wf_index idx" and occ: "occurs_at (data idx) (take (nat needle_len) ndl) (nat p)"
    and nl: "0 < needle_len" "readable ndl needle_len" and p: "0 \<le> p"
  shows "p + needle_len \<le> length_idx idx" and "wrap_i32 (p + needle_len) = p + needle_len"
proof -
  from nl have "length (take (nat needle_len) ndl) = nat needle_len"
    by (simp add: readable_def)
  with occ have "nat p + nat needle_len \<le> length (data idx)"
    by (simp add: occurs_at_def)
  with wf_index_sizes [OF wf] p nl(1) show le: "p + needle_len \<le> length_idx idx"
    by linarith
  from wf_index_sizes [OF wf] have "length_idx idx < 2 ^ 31" by simp
  with le p nl(1) show "wrap_i32 (p + needle_len) = p + needle_len"
    by (intro wrap_i32_id) linarith+
qed

subsection \<open>The naive scan on the two buffers\<close>

lemma naive_banana_ana: "naive_count (bytes ''banana'') (take (nat 3) (bytes ''ana'')) = 2"
  by code_simp

lemma naive_banana_na: "naive_count (bytes ''banana'') (take (nat 2) (bytes ''na'')) = 2"
  by code_simp

lemma naive_aaaa_aa: "naive_count (bytes ''aaaa'') (take (nat 2) (bytes ''aa'')) = 3"
  by code_simp

section \<open>The claims\<close>

text \<open>
  C1. For an index whose suffix array is a sorted permutation of the offsets and a
  needle of positive length, \<open>count_matches\<close> returns the number of offsets at
  which the naive linear scan finds the needle (overlapping occurrences counted
  separately).
\<close>

theorem count_matches_equals_naive_scan:
  assumes "iso_memcmp memcmp"
    and "valid_index index" and "0 < needle_len" and "readable needle needle_len"
  shows "count_matches memcmp (Some index) (Some needle) needle_len =
           Inr (int (naive_count (data index) (take (nat needle_len) needle)))"
  using assms by (rule count_matches_naive)

theorem count_matches_equals_naive_scan_witness:
  "iso_memcmp musl_memcmp \<and> valid_index banana_index \<and> (0::int) < 3 \<and>
   readable (bytes ''ana'') 3 \<and>
   count_matches musl_memcmp (Some banana_index) (Some (bytes ''ana'')) 3 =
     Inr (int (naive_count (data banana_index) (take (nat 3) (bytes ''ana''))))"
proof -
  have h0: "iso_memcmp musl_memcmp" by (rule musl_memcmp_iso)
  have h1: "valid_index banana_index" by (rule valid_banana)
  have h2: "(0::int) < 3" by simp
  have h3: "readable (bytes ''ana'') 3" by code_simp
  from count_matches_equals_naive_scan [OF h0 h1 h2 h3] h0 h1 h2 h3 show ?thesis by blast
qed

text \<open>
  C2. For such an index and needle, \<open>lower_bound \<le> upper_bound\<close>; every rank
  between them compares equal to the needle under \<open>compare_suffix\<close>, every other
  rank compares different from \<open>0\<close>; so the ranks between the bounds are exactly
  those whose suffix starts with the needle.
\<close>

theorem bounds_delimit_matching_ranks:
  assumes "iso_memcmp memcmp"
    and "valid_index index" and "0 < needle_len" and "readable needle needle_len"
  shows "\<exists>lb ub. lower_bound memcmp index needle needle_len = Inr lb \<and>
           upper_bound memcmp index needle needle_len = Inr ub \<and>
           0 \<le> lb \<and> lb \<le> ub \<and> ub \<le> length_idx index \<and>
           (\<forall>i. lb \<le> i \<and> i < ub \<longrightarrow>
                compare_suffix memcmp index (sa index ! nat i) needle needle_len = Inr 0) \<and>
           (\<forall>i. 0 \<le> i \<and> i < length_idx index \<and> \<not> (lb \<le> i \<and> i < ub) \<longrightarrow>
                (\<exists>c. compare_suffix memcmp index (sa index ! nat i) needle needle_len = Inr c
                      \<and> c \<noteq> 0)) \<and>
           (\<forall>i. 0 \<le> i \<and> i < length_idx index \<longrightarrow>
                (lb \<le> i \<and> i < ub \<longleftrightarrow>
                 occurs_at (data index) (take (nat needle_len) needle) (nat (sa index ! nat i))))"
proof -
  let ?m = "take (nat needle_len) needle"
  note iso = assms(1)
  from assms have wf: "wf_index index" and nl0: "0 \<le> needle_len"
    by (simp_all add: valid_index_def)
  from bounds_char [OF iso assms(2) nl0 assms(4)] obtain lb ub where b:
    "lower_bound memcmp index needle needle_len = Inr lb"
    "upper_bound memcmp index needle needle_len = Inr ub"
    "0 \<le> lb" "lb \<le> ub" "ub \<le> length_idx index"
    "\<forall>i. 0 \<le> i \<and> i < length_idx index \<longrightarrow> (lb \<le> i \<and> i < ub \<longleftrightarrow> rank_cmp index ?m i = 0)"
    by blast
  have cs: "\<exists>c. compare_suffix memcmp index (sa index ! nat i) needle needle_len = Inr c \<and>
      (c = 0 \<longleftrightarrow> rank_cmp index ?m i = 0)"
    if "0 \<le> i" "i < length_idx index" for i
    using compare_suffix_rank [OF iso wf nl0 assms(4) that] by blast
  have inside: "\<forall>i. lb \<le> i \<and> i < ub \<longrightarrow>
      compare_suffix memcmp index (sa index ! nat i) needle needle_len = Inr 0"
  proof (intro allI impI)
    fix i assume i: "lb \<le> i \<and> i < ub"
    with b(3,5) have r: "0 \<le> i" "i < length_idx index" by linarith+
    with b(6) i have "rank_cmp index ?m i = 0" by blast
    with cs [OF r] show "compare_suffix memcmp index (sa index ! nat i) needle needle_len = Inr 0"
      by auto
  qed
  have outside: "\<forall>i. 0 \<le> i \<and> i < length_idx index \<and> \<not> (lb \<le> i \<and> i < ub) \<longrightarrow>
      (\<exists>c. compare_suffix memcmp index (sa index ! nat i) needle needle_len = Inr c \<and> c \<noteq> 0)"
  proof (intro allI impI)
    fix i assume i: "0 \<le> i \<and> i < length_idx index \<and> \<not> (lb \<le> i \<and> i < ub)"
    then have r: "0 \<le> i" "i < length_idx index" by simp_all
    with b(6) i have "rank_cmp index ?m i \<noteq> 0" by blast
    with cs [OF r]
    show "\<exists>c. compare_suffix memcmp index (sa index ! nat i) needle needle_len = Inr c \<and> c \<noteq> 0"
      by auto
  qed
  have occ: "\<forall>i. 0 \<le> i \<and> i < length_idx index \<longrightarrow>
      (lb \<le> i \<and> i < ub \<longleftrightarrow> occurs_at (data index) ?m (nat (sa index ! nat i)))"
  proof (intro allI impI)
    fix i assume i: "0 \<le> i \<and> i < length_idx index"
    then have r: "0 \<le> i" "i < length_idx index" by simp_all
    from b(6) i rank_cmp_occurs [OF wf r, of ?m]
    show "lb \<le> i \<and> i < ub \<longleftrightarrow> occurs_at (data index) ?m (nat (sa index ! nat i))" by blast
  qed
  from b(1-5) inside outside occ show ?thesis by blast
qed

theorem bounds_delimit_matching_ranks_witness:
  "iso_memcmp musl_memcmp \<and> valid_index banana_index \<and> (0::int) < 3 \<and>
   readable (bytes ''ana'') 3 \<and>
   (\<exists>lb ub. lower_bound musl_memcmp banana_index (bytes ''ana'') 3 = Inr lb \<and>
           upper_bound musl_memcmp banana_index (bytes ''ana'') 3 = Inr ub \<and>
           0 \<le> lb \<and> lb \<le> ub \<and> ub \<le> length_idx banana_index \<and>
           (\<forall>i. lb \<le> i \<and> i < ub \<longrightarrow>
                compare_suffix musl_memcmp banana_index (sa banana_index ! nat i)
                  (bytes ''ana'') 3 = Inr 0) \<and>
           (\<forall>i. 0 \<le> i \<and> i < length_idx banana_index \<and> \<not> (lb \<le> i \<and> i < ub) \<longrightarrow>
                (\<exists>c. compare_suffix musl_memcmp banana_index (sa banana_index ! nat i)
                        (bytes ''ana'') 3 = Inr c \<and> c \<noteq> 0)) \<and>
           (\<forall>i. 0 \<le> i \<and> i < length_idx banana_index \<longrightarrow>
                (lb \<le> i \<and> i < ub \<longleftrightarrow>
                 occurs_at (data banana_index) (take (nat 3) (bytes ''ana''))
                   (nat (sa banana_index ! nat i)))))"
proof -
  have h0: "iso_memcmp musl_memcmp" by (rule musl_memcmp_iso)
  have h1: "valid_index banana_index" by (rule valid_banana)
  have h2: "(0::int) < 3" by simp
  have h3: "readable (bytes ''ana'') 3" by code_simp
  from bounds_delimit_matching_ranks [OF h0 h1 h2 h3] h0 h1 h2 h3 show ?thesis by blast
qed

text \<open>
  C3. On a valid index, with a needle of positive length and a result buffer
  that has the \<open>buffer_capacity > 0\<close> slots it is passed with, \<open>find_all\<close>
  returns, every position it has written is an
  occurrence of the needle inside the normalized range (\<open>start \<le> p\<close> and
  \<open>p + needle_len \<le> end\<close>), and when fewer positions than the effective limit
  were written, every occurrence inside the normalized range is among them.
\<close>

theorem find_all_sound_complete:
  assumes iso: "iso_memcmp memcmp"
    and v: "valid_index idx" and nl: "0 < needle_len" "readable ndl needle_len"
    and cap: "0 < buffer_capacity" "buffer_capacity \<le> int (length rb)"
  shows "\<exists>r rb'. find_all memcmp (Some idx) (Some ndl) needle_len start end_pos max_count (Some rb)
                    buffer_capacity = Inr (r, Some rb') \<and> 0 \<le> r \<and>
           (\<forall>p \<in> set (take (nat r) rb').
              norm_start start \<le> p \<and> p + needle_len \<le> norm_end idx end_pos \<and>
              0 \<le> p \<and> occurs_at (data idx) (take (nat needle_len) ndl) (nat p)) \<and>
           (r < effective_limit max_count buffer_capacity \<longrightarrow>
              (\<forall>p. 0 \<le> p \<and> occurs_at (data idx) (take (nat needle_len) ndl) (nat p) \<and>
                   norm_start start \<le> p \<and> p + needle_len \<le> norm_end idx end_pos
                   \<longrightarrow> p \<in> set (take (nat r) rb')))"
proof -
  let ?m = "take (nat needle_len) ndl"
  let ?s = "norm_start start" and ?e = "norm_end idx end_pos"
  let ?lim = "effective_limit max_count buffer_capacity"
  from v have wf: "wf_index idx" by (simp add: valid_index_def)
  from nl have nl0: "0 \<le> needle_len" by simp
  note sz = wf_index_sizes [OF wf]
  from bounds_char [OF iso v nl0 nl(2)] obtain lb ub where b:
    "lower_bound memcmp idx ndl needle_len = Inr lb"
    "upper_bound memcmp idx ndl needle_len = Inr ub"
    "0 \<le> lb" "lb \<le> ub" "ub \<le> length_idx idx"
    "\<forall>i. 0 \<le> i \<and> i < length_idx idx \<longrightarrow> (lb \<le> i \<and> i < ub \<longleftrightarrow> rank_cmp idx ?m i = 0)"
    by blast
  define out where "out = found idx needle_len start end_pos max_count buffer_capacity lb ub"
  have res: "find_all memcmp (Some idx) (Some ndl) needle_len start end_pos max_count (Some rb)
      buffer_capacity = Inr (int (length out), Some (out @ drop (length out) rb))"
    unfolding out_def using wf nl(1) cap b(1,3,2,5) by (rule find_all_found)
  have tk: "take (nat (int (length out))) (out @ drop (length out) rb) = out"
    by simp
  have rank_occ: "occurs_at (data idx) ?m (nat (sa idx ! nat i)) \<and> 0 \<le> sa idx ! nat i"
    if "lb \<le> i" "i < ub" for i
  proof -
    from that b(3,5) have r: "0 \<le> i" "i < length_idx idx" by linarith+
    with b(6) that have "rank_cmp idx ?m i = 0" by blast
    with rank_cmp_occurs [OF wf r, of ?m] wf_index_nth [OF wf r] show ?thesis by blast
  qed
  have sound: "\<forall>p \<in> set out. ?s \<le> p \<and> p + needle_len \<le> ?e \<and> 0 \<le> p \<and>
      occurs_at (data idx) ?m (nat p)"
  proof
    fix p assume "p \<in> set out"
    then have "p \<in> set (filter (in_range needle_len ?s ?e) (ranks idx lb ub))"
      unfolding out_def found_def by (auto split: if_splits dest: in_set_takeD)
    then have ok: "in_range needle_len ?s ?e p" and rk: "p \<in> set (ranks idx lb ub)"
      by simp_all
    from rk ranks_mem [OF b(3)] obtain i where i: "lb \<le> i" "i < ub" "p = sa idx ! nat i"
      by blast
    from rank_occ [OF i(1,2)] i(3) have occ: "occurs_at (data idx) ?m (nat p)" and p0: "0 \<le> p"
      by simp_all
    from occurs_at_bound(2) [OF wf occ nl p0] ok
    have "?s \<le> p" "p + needle_len \<le> ?e" by (simp_all add: in_range_def)
    with occ p0 show "?s \<le> p \<and> p + needle_len \<le> ?e \<and> 0 \<le> p \<and> occurs_at (data idx) ?m (nat p)"
      by simp
  qed
  have complete: "\<forall>p. 0 \<le> p \<and> occurs_at (data idx) ?m (nat p) \<and> ?s \<le> p \<and> p + needle_len \<le> ?e
      \<longrightarrow> p \<in> set out" if short: "int (length out) < ?lim"
  proof (intro allI impI)
    fix p assume h: "0 \<le> p \<and> occurs_at (data idx) ?m (nat p) \<and> ?s \<le> p \<and> p + needle_len \<le> ?e"
    then have p0: "0 \<le> p" and occ: "occurs_at (data idx) ?m (nat p)"
      and rng: "?s \<le> p" "p + needle_len \<le> ?e" by simp_all
    from rng nl(1) have ne: "\<not> ?s \<ge> ?e" by linarith
    let ?all = "filter (in_range needle_len ?s ?e) (ranks idx lb ub)"
    from ne have o: "out = take (nat ?lim) ?all"
      by (simp add: out_def found_def)
    have full: "out = ?all"
    proof (rule ccontr)
      assume "out \<noteq> ?all"
      have "nat ?lim < length ?all"
      proof (rule ccontr)
        assume "\<not> nat ?lim < length ?all"
        then have "take (nat ?lim) ?all = ?all" by simp
        with o \<open>out \<noteq> ?all\<close> show False by simp
      qed
      then have "length (take (nat ?lim) ?all) = nat ?lim" by simp
      then have "length out = nat ?lim" by (simp only: o)
      with short show False by linarith
    qed
    from occurs_at_bound [OF wf occ nl p0] have pn: "p + needle_len \<le> length_idx idx"
      and wr: "wrap_i32 (p + needle_len) = p + needle_len" by simp_all
    from pn nl(1) p0 sz have "nat p \<in> {0..<nat (length_idx idx)}" by simp
    with sa_nat_perm(2) [OF v] have "nat p \<in> set (map nat (sa idx))" by simp
    then obtain k where k: "k < length (sa idx)" "nat (sa idx ! k) = nat p"
      by (auto simp: in_set_conv_nth)
    with sz have r: "0 \<le> int k" "int k < length_idx idx" by linarith+
    from wf_index_nth [OF wf r] have "0 \<le> sa idx ! k" by simp
    with k(2) p0 have "sa idx ! k = p" by linarith
    then have pk: "sa idx ! nat (int k) = p" by simp
    with rank_cmp_occurs [OF wf r, of ?m] occ have "rank_cmp idx ?m (int k) = 0" by simp
    with b(6) r have "lb \<le> int k \<and> int k < ub" by blast
    with pk have "\<exists>i. lb \<le> i \<and> i < ub \<and> p = sa idx ! nat i" by blast
    with ranks_mem [OF b(3)] have "p \<in> set (ranks idx lb ub)" by blast
    moreover from rng wr have "in_range needle_len ?s ?e p" by (simp add: in_range_def)
    ultimately show "p \<in> set out" unfolding full by simp
  qed
  have s': "\<forall>p \<in> set (take (nat (int (length out))) (out @ drop (length out) rb)).
      ?s \<le> p \<and> p + needle_len \<le> ?e \<and> 0 \<le> p \<and> occurs_at (data idx) ?m (nat p)"
    unfolding tk by (rule sound)
  have c': "int (length out) < ?lim \<longrightarrow>
      (\<forall>p. 0 \<le> p \<and> occurs_at (data idx) ?m (nat p) \<and> ?s \<le> p \<and> p + needle_len \<le> ?e
         \<longrightarrow> p \<in> set (take (nat (int (length out))) (out @ drop (length out) rb)))"
    unfolding tk by (rule impI) (rule complete)
  have r0: "0 \<le> int (length out)" by simp
  from res r0 s' c' show ?thesis by blast
qed

theorem find_all_sound_complete_witness:
  "iso_memcmp musl_memcmp \<and> valid_index banana_index \<and> (0::int) < 3 \<and> readable (bytes ''ana'') 3 \<and> (0::int) < 4 \<and>
   (4::int) \<le> int (length [9, 9, 9, 9 :: int]) \<and>
   (\<exists>r rb'. find_all musl_memcmp (Some banana_index) (Some (bytes ''ana'')) 3 2 6 10 (Some [9, 9, 9, 9]) 4
                 = Inr (r, Some rb') \<and> 0 \<le> r \<and>
           (\<forall>p \<in> set (take (nat r) rb').
              norm_start 2 \<le> p \<and> p + 3 \<le> norm_end banana_index 6 \<and>
              0 \<le> p \<and> occurs_at (data banana_index) (take (nat 3) (bytes ''ana'')) (nat p)) \<and>
           (r < effective_limit 10 4 \<longrightarrow>
              (\<forall>p. 0 \<le> p \<and> occurs_at (data banana_index) (take (nat 3) (bytes ''ana'')) (nat p) \<and>
                   norm_start 2 \<le> p \<and> p + 3 \<le> norm_end banana_index 6
                   \<longrightarrow> p \<in> set (take (nat r) rb')))) \<and>
   find_all musl_memcmp (Some banana_index) (Some (bytes ''ana'')) 3 2 6 10 (Some [9, 9, 9, 9]) 4
     = Inr (1, Some [3, 9, 9, 9])"
proof -
  have h0: "iso_memcmp musl_memcmp" by (rule musl_memcmp_iso)
  have h1: "valid_index banana_index" by (rule valid_banana)
  have h2: "(0::int) < 3" by simp
  have h3: "readable (bytes ''ana'') 3" by code_simp
  have h4: "(0::int) < 4" by simp
  have h5: "(4::int) \<le> int (length [9, 9, 9, 9 :: int])" by simp
  have r: "find_all musl_memcmp (Some banana_index) (Some (bytes ''ana'')) 3 2 6 10 (Some [9, 9, 9, 9]) 4
     = Inr (1, Some [3, 9, 9, 9])" by code_simp
  from find_all_sound_complete [OF h0 h1 h2 h3 h4 h5, of 2 6 10] h0 h1 h2 h3 h4 h5 r
  show ?thesis by (intro conjI)
qed

text \<open>
  C4, as stated, fails: where the compared bytes differ, \<open>compare_suffix\<close> returns
  the result of \<open>memcmp\<close> unchanged, and with the \<open>memcmp\<close> of musl that is the
  difference of the two bytes, not its sign. The suffix \<open>nana\<close> against the needle
  \<open>ana\<close> gives \<open>13\<close>.
\<close>

theorem compare_suffix_counterexample:
  "compare_suffix musl_memcmp banana_index 2 (bytes ''ana'') 3 = Inr 13 \<and>
   compare_suffix musl_memcmp banana_index 2 (bytes ''ana'') 3 \<notin> {Inr (- 1), Inr 0, Inr 1}"
  by code_simp

text \<open>
  C4, amended. For a \<open>memcmp\<close> that conforms to ISO C, a well-formed index, a
  position \<open>pos\<close> in \<open>[0, n)\<close> and a readable needle of positive length,
  \<open>compare_suffix\<close> returns a value \<open>c\<close>: with \<open>cmp_len = min needle_len (n - pos)\<close>,
  \<open>c\<close> is negative when the first \<open>cmp_len\<close> bytes of the suffix are byte-wise less
  than those of the needle, positive when they are greater, and when they are
  equal \<open>c\<close> is \<open>- 1\<close> if \<open>n - pos < needle_len\<close> and \<open>0\<close> otherwise.
\<close>

theorem compare_suffix_sign:
  assumes iso: "iso_memcmp memcmp"
    and wf: "wf_index index" and pos: "0 \<le> pos" "pos < length_idx index"
    and nl: "0 < needle_len" "readable needle needle_len"
  shows "\<exists>c. compare_suffix memcmp index pos needle needle_len = Inr c \<and>
           (let cmp_len = nat (min needle_len (length_idx index - pos));
                s = take cmp_len (suffix index pos);
                m = take cmp_len needle
            in (s < m \<longrightarrow> c < 0) \<and> (m < s \<longrightarrow> 0 < c) \<and>
               (s = m \<longrightarrow> c = (if length_idx index - pos < needle_len then - 1 else 0)))"
proof -
  from pos nl have "pos \<le> length_idx index" "0 \<le> needle_len" by simp_all
  with iso wf pos(1) nl(2) show ?thesis by (intro compare_suffix_value)
qed

theorem compare_suffix_sign_witness:
  "iso_memcmp musl_memcmp \<and> wf_index banana_index \<and> (0::int) \<le> 2 \<and>
   2 < length_idx banana_index \<and> (0::int) < 3 \<and> readable (bytes ''ana'') 3 \<and>
   (\<exists>c. compare_suffix musl_memcmp banana_index 2 (bytes ''ana'') 3 = Inr c \<and>
           (let cmp_len = nat (min 3 (length_idx banana_index - 2));
                s = take cmp_len (suffix banana_index 2);
                m = take cmp_len (bytes ''ana'')
            in (s < m \<longrightarrow> c < 0) \<and> (m < s \<longrightarrow> 0 < c) \<and>
               (s = m \<longrightarrow> c = (if length_idx banana_index - 2 < 3 then - 1 else 0))))"
proof -
  have h0: "iso_memcmp musl_memcmp" by (rule musl_memcmp_iso)
  have h1: "wf_index banana_index" by code_simp
  have h2: "(0::int) \<le> 2" by simp
  have h3: "2 < length_idx banana_index" by code_simp
  have h4: "(0::int) < 3" by simp
  have h5: "readable (bytes ''ana'') 3" by code_simp
  from compare_suffix_sign [OF h0 h1 h2 h3 h4 h5] h0 h1 h2 h3 h4 h5 show ?thesis by blast
qed

text \<open>
  C5. A call of \<open>find_all\<close> that passes the degenerate-input checks returns a
  count \<open>r\<close> with \<open>0 \<le> r \<le> limit\<close>, where the limit is \<open>min max_count capacity\<close>
  for \<open>max_count > 0\<close> and the capacity otherwise, and leaves every slot of the
  result buffer from \<open>r\<close> on as it was. On a well-formed index, with a readable
  needle and a buffer of at least \<open>buffer_capacity\<close> slots, the call does return,
  and the first \<open>r\<close> slots then hold \<open>r\<close> entries of the suffix array.
\<close>

theorem find_all_respects_limit:
  assumes nl: "0 < needle_len" and cap: "0 < buffer_capacity"
  shows "(\<forall>r rbo. find_all memcmp (Some idx) (Some ndl) needle_len start end_pos max_count (Some rb)
                    buffer_capacity = Inr (r, rbo) \<longrightarrow>
            0 \<le> r \<and> r \<le> effective_limit max_count buffer_capacity \<and>
            (\<exists>rb'. rbo = Some rb' \<and> length rb' = length rb \<and>
                   drop (nat r) rb' = drop (nat r) rb)) \<and>
         (iso_memcmp memcmp \<and> wf_index idx \<and> readable ndl needle_len \<and>
          buffer_capacity \<le> int (length rb) \<longrightarrow>
            (\<exists>r out. find_all memcmp (Some idx) (Some ndl) needle_len start end_pos max_count (Some rb)
                        buffer_capacity = Inr (r, Some (out @ drop (nat r) rb)) \<and>
                     int (length out) = r \<and> set out \<subseteq> set (sa idx)))"
proof -
  have returned: "\<forall>r rbo. find_all memcmp (Some idx) (Some ndl) needle_len start end_pos max_count (Some rb)
                    buffer_capacity = Inr (r, rbo) \<longrightarrow>
            0 \<le> r \<and> r \<le> effective_limit max_count buffer_capacity \<and>
            (\<exists>rb'. rbo = Some rb' \<and> length rb' = length rb \<and>
                   drop (nat r) rb' = drop (nat r) rb)"
  proof (intro allI impI)
  fix r rbo
  assume res: "find_all memcmp (Some idx) (Some ndl) needle_len start end_pos max_count (Some rb)
                 buffer_capacity = Inr (r, rbo)"
  let ?lim = "effective_limit max_count buffer_capacity"
  from effective_limit_bounds [OF cap, of max_count] have l: "0 \<le> ?lim" by linarith
  show "0 \<le> r \<and> r \<le> ?lim \<and>
        (\<exists>rb'. rbo = Some rb' \<and> length rb' = length rb \<and> drop (nat r) rb' = drop (nat r) rb)"
  proof (cases "norm_start start \<ge> norm_end idx end_pos")
    case True
    with res have "r = 0" "rbo = Some rb"
      unfolding find_all_unfold [OF nl cap] by simp_all
    with l show ?thesis by simp
  next
    case False
    with res obtain lo hi rb' where
      loop: "find_all_loop idx needle_len (norm_start start) (norm_end idx end_pos) ?lim hi rb lo 0
               = Inr (r, rb')" and rbo: "rbo = Some rb'"
      unfolding find_all_unfold [OF nl cap] by (auto split: sum.splits prod.splits)
    have z: "(0::int) \<le> 0" by simp
    from find_all_loop_frame [OF z l loop] rbo show ?thesis by simp
  qed
  qed
  have returns: "iso_memcmp memcmp \<and> wf_index idx \<and> readable ndl needle_len \<and>
          buffer_capacity \<le> int (length rb) \<longrightarrow>
            (\<exists>r out. find_all memcmp (Some idx) (Some ndl) needle_len start end_pos max_count (Some rb)
                        buffer_capacity = Inr (r, Some (out @ drop (nat r) rb)) \<and>
                     int (length out) = r \<and> set out \<subseteq> set (sa idx))"
  proof
  assume h: "iso_memcmp memcmp \<and> wf_index idx \<and> readable ndl needle_len \<and>
          buffer_capacity \<le> int (length rb)"
  then have iso: "iso_memcmp memcmp" and wf: "wf_index idx" and rd: "readable ndl needle_len"
    and cl: "buffer_capacity \<le> int (length rb)" by simp_all
  from nl have nl0: "0 \<le> needle_len" by simp
  from bounds_return [OF iso wf nl0 rd] obtain lb ub where b:
    "lower_bound memcmp idx ndl needle_len = Inr lb" "upper_bound memcmp idx ndl needle_len = Inr ub"
    "0 \<le> lb" "ub \<le> length_idx idx" by blast
  let ?out = "found idx needle_len start end_pos max_count buffer_capacity lb ub"
  have "find_all memcmp (Some idx) (Some ndl) needle_len start end_pos max_count (Some rb)
          buffer_capacity = Inr (int (length ?out), Some (?out @ drop (nat (int (length ?out))) rb))"
    using find_all_found [OF wf nl cap cl b(1,3,2,4)] by simp
  moreover have "set ?out \<subseteq> set (sa idx)"
    using wf b(3,4) by (rule found_subset)
  ultimately show "\<exists>r out. find_all memcmp (Some idx) (Some ndl) needle_len start end_pos max_count
      (Some rb) buffer_capacity = Inr (r, Some (out @ drop (nat r) rb)) \<and>
      int (length out) = r \<and> set out \<subseteq> set (sa idx)"
    by blast
  qed
  from returned returns show ?thesis by (rule conjI)
qed

theorem find_all_respects_limit_witness:
  "(0::int) < 3 \<and> iso_memcmp musl_memcmp \<and> wf_index banana_index \<and> readable (bytes ''ana'') 3 \<and>
   (3::int) \<le> int (length [9, 9, 9 :: int]) \<and>
   find_all musl_memcmp (Some banana_index) (Some (bytes ''ana'')) 3 0 6 1 (Some [9, 9, 9]) 3
     = Inr (1, Some [3, 9, 9]) \<and>
   (0::int) \<le> 1 \<and> 1 \<le> effective_limit 1 3 \<and>
   (\<exists>rb'. Some [3, 9, 9 :: int] = Some rb' \<and> length rb' = length [9, 9, 9 :: int] \<and>
          drop (nat 1) rb' = drop (nat 1) [9, 9, 9 :: int])"
proof -
  have h0: "iso_memcmp musl_memcmp" by (rule musl_memcmp_iso)
  have h1: "(0::int) < 3" by simp
  have h2: "wf_index banana_index" by code_simp
  have h3: "readable (bytes ''ana'') 3" by code_simp
  have h4: "(3::int) \<le> int (length [9, 9, 9 :: int])" by simp
  have r: "find_all musl_memcmp (Some banana_index) (Some (bytes ''ana'')) 3 0 6 1 (Some [9, 9, 9]) 3
     = Inr (1, Some [3, 9, 9])" by code_simp
  from find_all_respects_limit [where memcmp = musl_memcmp and idx = banana_index
      and ndl = "bytes ''ana''" and start = 0 and end_pos = 6 and max_count = 1
      and rb = "[9, 9, 9]", OF h1 h1]
    h0 h1 h2 h3 h4 r
  show ?thesis by blast
qed

text \<open>
  C6. \<open>find_all\<close> normalizes its range before filtering: \<open>end\<close> below \<open>0\<close> or
  above \<open>n\<close> is replaced by \<open>n\<close> and \<open>start\<close> below \<open>0\<close> by \<open>0\<close>
  (\<open>norm_end\<close>, \<open>norm_start\<close>). A call gives the same result as the call on the
  normalized range; when the normalized \<open>start\<close> is not below the normalized
  \<open>end\<close> the result is \<open>0\<close> and the buffer is untouched, for every index and
  needle; and on a well-formed index the positions written are exactly the
  suffix array entries between the two bounds that pass the filter
  \<open>start \<le> pos\<close> and \<open>pos + needle_len \<le> end\<close> taken with the normalized values,
  in rank order and cut at the limit.
\<close>

theorem find_all_normalizes_range:
  "find_all memcmp (Some idx) needle needle_len start end_pos max_count result_buffer
     buffer_capacity =
     find_all memcmp (Some idx) needle needle_len (norm_start start) (norm_end idx end_pos)
       max_count result_buffer buffer_capacity \<and>
   (norm_start start \<ge> norm_end idx end_pos \<longrightarrow>
    find_all memcmp (Some idx) needle needle_len start end_pos max_count result_buffer
      buffer_capacity = Inr (0, result_buffer)) \<and>
   (iso_memcmp memcmp \<and> wf_index idx \<and> 0 < needle_len \<and> readable ndl needle_len \<and>
    0 < buffer_capacity \<and> buffer_capacity \<le> int (length rb) \<longrightarrow>
    (\<exists>lb ub out.
       lower_bound memcmp idx ndl needle_len = Inr lb \<and>
       upper_bound memcmp idx ndl needle_len = Inr ub \<and>
       out = (if norm_start start \<ge> norm_end idx end_pos then []
              else take (nat (effective_limit max_count buffer_capacity))
                     (filter (\<lambda>pos. norm_start start \<le> pos \<and>
                                     wrap_i32 (pos + needle_len) \<le> norm_end idx end_pos)
                        (ranks idx lb ub))) \<and>
       find_all memcmp (Some idx) (Some ndl) needle_len start end_pos max_count (Some rb)
         buffer_capacity = Inr (int (length out), Some (out @ drop (length out) rb))))"
proof -
  have same: "find_all memcmp (Some idx) needle needle_len start end_pos max_count result_buffer
     buffer_capacity =
     find_all memcmp (Some idx) needle needle_len (norm_start start) (norm_end idx end_pos)
       max_count result_buffer buffer_capacity"
    by (auto simp: find_all_def Let_def norm_start_def norm_end_def split: option.splits)
  have empty: "norm_start start \<ge> norm_end idx end_pos \<longrightarrow>
    find_all memcmp (Some idx) needle needle_len start end_pos max_count result_buffer
      buffer_capacity = Inr (0, result_buffer)"
    by (auto simp: find_all_def Let_def norm_start_def norm_end_def split: option.splits)
  have filtered: "iso_memcmp memcmp \<and> wf_index idx \<and> 0 < needle_len \<and> readable ndl needle_len \<and>
    0 < buffer_capacity \<and> buffer_capacity \<le> int (length rb) \<longrightarrow>
    (\<exists>lb ub out.
       lower_bound memcmp idx ndl needle_len = Inr lb \<and>
       upper_bound memcmp idx ndl needle_len = Inr ub \<and>
       out = (if norm_start start \<ge> norm_end idx end_pos then []
              else take (nat (effective_limit max_count buffer_capacity))
                     (filter (\<lambda>pos. norm_start start \<le> pos \<and>
                                     wrap_i32 (pos + needle_len) \<le> norm_end idx end_pos)
                        (ranks idx lb ub))) \<and>
       find_all memcmp (Some idx) (Some ndl) needle_len start end_pos max_count (Some rb)
         buffer_capacity = Inr (int (length out), Some (out @ drop (length out) rb)))"
  proof
    assume h: "iso_memcmp memcmp \<and> wf_index idx \<and> 0 < needle_len \<and> readable ndl needle_len \<and>
      0 < buffer_capacity \<and> buffer_capacity \<le> int (length rb)"
    then have iso: "iso_memcmp memcmp" and wf: "wf_index idx" and nl: "0 < needle_len"
      and rd: "readable ndl needle_len" and cap: "0 < buffer_capacity"
      "buffer_capacity \<le> int (length rb)" by simp_all
    from nl have nl0: "0 \<le> needle_len" by simp
    from bounds_return [OF iso wf nl0 rd] obtain lb ub where b:
      "lower_bound memcmp idx ndl needle_len = Inr lb"
      "upper_bound memcmp idx ndl needle_len = Inr ub"
      "0 \<le> lb" "ub \<le> length_idx idx" by blast
    have f: "found idx needle_len start end_pos max_count buffer_capacity lb ub =
        (if norm_start start \<ge> norm_end idx end_pos then []
         else take (nat (effective_limit max_count buffer_capacity))
                (filter (\<lambda>pos. norm_start start \<le> pos \<and>
                                wrap_i32 (pos + needle_len) \<le> norm_end idx end_pos)
                   (ranks idx lb ub)))"
      unfolding found_def in_range_def ..
    from find_all_found [OF wf nl cap b(1,3,2,4), of start end_pos max_count] b(1,2)
    show "\<exists>lb ub out.
       lower_bound memcmp idx ndl needle_len = Inr lb \<and>
       upper_bound memcmp idx ndl needle_len = Inr ub \<and>
       out = (if norm_start start \<ge> norm_end idx end_pos then []
              else take (nat (effective_limit max_count buffer_capacity))
                     (filter (\<lambda>pos. norm_start start \<le> pos \<and>
                                     wrap_i32 (pos + needle_len) \<le> norm_end idx end_pos)
                        (ranks idx lb ub))) \<and>
       find_all memcmp (Some idx) (Some ndl) needle_len start end_pos max_count (Some rb)
         buffer_capacity = Inr (int (length out), Some (out @ drop (length out) rb))"
      unfolding f by blast
  qed
  from same empty filtered show ?thesis by (intro conjI)
qed

theorem find_all_normalizes_range_witness:
  "norm_start 6 \<ge> norm_end banana_index 100 \<and>
   find_all musl_memcmp (Some banana_index) (Some (bytes ''ana'')) 3 6 100 10 (Some [8, 8, 8]) 3
     = Inr (0, Some [8, 8, 8]) \<and>
   iso_memcmp musl_memcmp \<and> wf_index banana_index \<and> (0::int) < 3 \<and>
   readable (bytes ''ana'') 3 \<and> (3::int) \<le> int (length [8, 8, 8 :: int]) \<and>
   (\<exists>lb ub out.
       lower_bound musl_memcmp banana_index (bytes ''ana'') 3 = Inr lb \<and>
       upper_bound musl_memcmp banana_index (bytes ''ana'') 3 = Inr ub \<and>
       out = (if norm_start (- 5) \<ge> norm_end banana_index (- 1) then []
              else take (nat (effective_limit 10 3))
                     (filter (\<lambda>pos. norm_start (- 5) \<le> pos \<and>
                                     wrap_i32 (pos + 3) \<le> norm_end banana_index (- 1))
                        (ranks banana_index lb ub))) \<and>
       find_all musl_memcmp (Some banana_index) (Some (bytes ''ana'')) 3 (- 5) (- 1) 10
         (Some [8, 8, 8]) 3 = Inr (int (length out), Some (out @ drop (length out) [8, 8, 8]))) \<and>
   find_all musl_memcmp (Some banana_index) (Some (bytes ''ana'')) 3 (- 5) (- 1) 10
     (Some [8, 8, 8]) 3 = Inr (2, Some [3, 1, 8]) \<and>
   find_all musl_memcmp (Some banana_index) (Some (bytes ''ana'')) 3 2 (- 1) 10
     (Some [8, 8, 8]) 3 = Inr (1, Some [3, 8, 8]) \<and>
   find_all musl_memcmp (Some banana_index) (Some (bytes ''ana'')) 3 (- 5) 5 10
     (Some [8, 8, 8]) 3 = Inr (1, Some [1, 8, 8])"
proof -
  have e: "norm_start 6 \<ge> norm_end banana_index 100" by code_simp
  have h0: "iso_memcmp musl_memcmp" by (rule musl_memcmp_iso)
  have h1: "wf_index banana_index" by code_simp
  have h2: "(0::int) < 3" by simp
  have h3: "readable (bytes ''ana'') 3" by code_simp
  have h4: "(3::int) \<le> int (length [8, 8, 8 :: int])" by simp
  have v1: "find_all musl_memcmp (Some banana_index) (Some (bytes ''ana'')) 3 (- 5) (- 1) 10
     (Some [8, 8, 8]) 3 = Inr (2, Some [3, 1, 8])" by code_simp
  have v2: "find_all musl_memcmp (Some banana_index) (Some (bytes ''ana'')) 3 2 (- 1) 10
     (Some [8, 8, 8]) 3 = Inr (1, Some [3, 8, 8])" by code_simp
  have v3: "find_all musl_memcmp (Some banana_index) (Some (bytes ''ana'')) 3 (- 5) 5 10
     (Some [8, 8, 8]) 3 = Inr (1, Some [1, 8, 8])" by code_simp
  note t = find_all_normalizes_range [where memcmp = musl_memcmp and idx = banana_index
      and needle = "Some (bytes ''ana'')" and ndl = "bytes ''ana''" and needle_len = 3
      and max_count = 10 and result_buffer = "Some [8, 8, 8]" and rb = "[8, 8, 8]"
      and buffer_capacity = 3]
  from t [where start = 6 and end_pos = 100] e
  have a: "find_all musl_memcmp (Some banana_index) (Some (bytes ''ana'')) 3 6 100 10
      (Some [8, 8, 8]) 3 = Inr (0, Some [8, 8, 8])" by blast
  from t [where start = "- 5" and end_pos = "- 1"] h0 h1 h2 h3 h4
  have b: "\<exists>lb ub out.
       lower_bound musl_memcmp banana_index (bytes ''ana'') 3 = Inr lb \<and>
       upper_bound musl_memcmp banana_index (bytes ''ana'') 3 = Inr ub \<and>
       out = (if norm_start (- 5) \<ge> norm_end banana_index (- 1) then []
              else take (nat (effective_limit 10 3))
                     (filter (\<lambda>pos. norm_start (- 5) \<le> pos \<and>
                                     wrap_i32 (pos + 3) \<le> norm_end banana_index (- 1))
                        (ranks banana_index lb ub))) \<and>
       find_all musl_memcmp (Some banana_index) (Some (bytes ''ana'')) 3 (- 5) (- 1) 10
         (Some [8, 8, 8]) 3 = Inr (int (length out), Some (out @ drop (length out) [8, 8, 8]))"
    by blast
  from e a h0 h1 h2 h3 h4 b v1 v2 v3 show ?thesis by (intro conjI)
qed

text \<open>
  C7. Degenerate inputs give a default and no fault: \<open>count_matches\<close> returns
  \<open>0\<close> for an absent index, an absent needle or \<open>needle_len \<le> 0\<close>; \<open>find_all\<close>
  returns \<open>0\<close> and leaves the result buffer alone for an absent index, needle or
  result buffer, for \<open>needle_len \<le> 0\<close> and for \<open>buffer_capacity \<le> 0\<close>;
  \<open>create_index\<close> returns \<open>NULL\<close> for \<open>length \<le> 0\<close>.
\<close>

theorem degenerate_inputs_default:
  "count_matches memcmp None needle needle_len = Inr 0 \<and>
   count_matches memcmp index None needle_len = Inr 0 \<and>
   (needle_len \<le> 0 \<longrightarrow> count_matches memcmp index needle needle_len = Inr 0) \<and>
   find_all memcmp None needle needle_len start end_pos max_count result_buffer buffer_capacity =
     Inr (0, result_buffer) \<and>
   find_all memcmp index None needle_len start end_pos max_count result_buffer buffer_capacity =
     Inr (0, result_buffer) \<and>
   (needle_len \<le> 0 \<longrightarrow>
      find_all memcmp index needle needle_len start end_pos max_count result_buffer
        buffer_capacity = Inr (0, result_buffer)) \<and>
   find_all memcmp index needle needle_len start end_pos max_count None buffer_capacity =
     Inr (0, None) \<and>
   (buffer_capacity \<le> 0 \<longrightarrow>
      find_all memcmp index needle needle_len start end_pos max_count result_buffer
        buffer_capacity = Inr (0, result_buffer)) \<and>
   (len \<le> 0 \<longrightarrow> create_index malloc_ok libsais buffer len = Inr None)"
  by (simp add: count_matches_def find_all_def create_index_def
      split: option.split)

theorem degenerate_inputs_default_witness:
  "(0::int) \<le> 0 \<and>
   count_matches musl_memcmp (Some banana_index) (Some (bytes ''ana'')) 0 = Inr 0 \<and>
   find_all musl_memcmp (Some banana_index) (Some (bytes ''ana'')) 0 0 6 10 (Some [7, 7]) 2
     = Inr (0, Some [7, 7]) \<and>
   find_all musl_memcmp (Some banana_index) (Some (bytes ''ana'')) 3 0 6 10 (Some [7, 7]) 0
     = Inr (0, Some [7, 7]) \<and>
   create_index (\<lambda>k. True) (\<lambda>T n. (0, [])) (bytes ''banana'') 0 = Inr None"
proof -
  have h: "(0::int) \<le> 0" by simp
  note d = degenerate_inputs_default [where memcmp = musl_memcmp
      and index = "Some banana_index" and needle = "Some (bytes ''ana'')"
      and start = 0 and end_pos = 6 and max_count = 10 and result_buffer = "Some [7, 7]"
      and malloc_ok = "\<lambda>k. True" and libsais = "\<lambda>T n. (0, [])"
      and buffer = "bytes ''banana''" and len = 0]
  from d [where needle_len = 0 and buffer_capacity = 2]
    d [where needle_len = 3 and buffer_capacity = 0] h
  show ?thesis by blast
qed

text \<open>
  C8. For the buffer \<open>banana\<close> with any valid suffix array the count of \<open>ana\<close> is
  \<open>2\<close> and the count of \<open>na\<close> is \<open>2\<close>; for the buffer \<open>aaaa\<close> with any valid
  suffix array the count of \<open>aa\<close> is \<open>3\<close>.
\<close>

theorem scenario_counts:
  assumes iso: "iso_memcmp memcmp"
    and b: "valid_index \<lparr>data = bytes ''banana'', sa = s, length_idx = 6\<rparr>"
    and a: "valid_index \<lparr>data = bytes ''aaaa'', sa = t, length_idx = 4\<rparr>"
  shows "count_matches memcmp (Some \<lparr>data = bytes ''banana'', sa = s, length_idx = 6\<rparr>)
           (Some (bytes ''ana'')) 3 = Inr 2 \<and>
         count_matches memcmp (Some \<lparr>data = bytes ''banana'', sa = s, length_idx = 6\<rparr>)
           (Some (bytes ''na'')) 2 = Inr 2 \<and>
         count_matches memcmp (Some \<lparr>data = bytes ''aaaa'', sa = t, length_idx = 4\<rparr>)
           (Some (bytes ''aa'')) 2 = Inr 3"
proof -
  have r3: "readable (bytes ''ana'') 3" and r2: "readable (bytes ''na'') 2"
    and ra: "readable (bytes ''aa'') 2" by code_simp+
  have p3: "(0::int) < 3" and p2: "(0::int) < 2" by simp_all
  from count_matches_naive [OF iso b p3 r3] naive_banana_ana
  have c1: "count_matches memcmp (Some \<lparr>data = bytes ''banana'', sa = s, length_idx = 6\<rparr>)
           (Some (bytes ''ana'')) 3 = Inr 2" by simp
  from count_matches_naive [OF iso b p2 r2] naive_banana_na
  have c2: "count_matches memcmp (Some \<lparr>data = bytes ''banana'', sa = s, length_idx = 6\<rparr>)
           (Some (bytes ''na'')) 2 = Inr 2" by simp
  from count_matches_naive [OF iso a p2 ra] naive_aaaa_aa
  have c3: "count_matches memcmp (Some \<lparr>data = bytes ''aaaa'', sa = t, length_idx = 4\<rparr>)
           (Some (bytes ''aa'')) 2 = Inr 3" by simp
  from c1 c2 c3 show ?thesis by simp
qed

theorem scenario_counts_witness:
  "iso_memcmp musl_memcmp \<and>
   valid_index \<lparr>data = bytes ''banana'', sa = [5, 3, 1, 0, 4, 2], length_idx = 6\<rparr> \<and>
   valid_index \<lparr>data = bytes ''aaaa'', sa = [3, 2, 1, 0], length_idx = 4\<rparr> \<and>
   count_matches musl_memcmp (Some \<lparr>data = bytes ''banana'', sa = [5, 3, 1, 0, 4, 2], length_idx = 6\<rparr>)
     (Some (bytes ''ana'')) 3 = Inr 2 \<and>
   count_matches musl_memcmp (Some \<lparr>data = bytes ''banana'', sa = [5, 3, 1, 0, 4, 2], length_idx = 6\<rparr>)
     (Some (bytes ''na'')) 2 = Inr 2 \<and>
   count_matches musl_memcmp (Some \<lparr>data = bytes ''aaaa'', sa = [3, 2, 1, 0], length_idx = 4\<rparr>)
     (Some (bytes ''aa'')) 2 = Inr 3"
proof -
  have h1: "valid_index \<lparr>data = bytes ''banana'', sa = [5, 3, 1, 0, 4, 2], length_idx = 6\<rparr>"
    using valid_banana by (simp add: banana_index_def)
  have h2: "valid_index \<lparr>data = bytes ''aaaa'', sa = [3, 2, 1, 0], length_idx = 4\<rparr>"
    using valid_aaaa by (simp add: aaaa_index_def)
  have h0: "iso_memcmp musl_memcmp" by (rule musl_memcmp_iso)
  from scenario_counts [OF h0 h1 h2] h0 h1 h2 show ?thesis by (intro conjI) simp_all
qed

text \<open>
  C9. The two binary searches terminate: for \<open>lo < hi\<close> the midpoint satisfies
  \<open>lo \<le> mid < hi\<close>, so each iteration makes \<open>hi - lo\<close> smaller (the measure of the
  termination proofs of \<open>lower_bound_loop\<close> and \<open>upper_bound_loop\<close>). For an index
  with \<open>length \<ge> 0\<close> a value they return lies in \<open>[0, n]\<close>, and on a well-formed
  index with a readable needle they do return a value.
\<close>

theorem bound_loops_return_in_range:
  assumes "0 \<le> length_idx index"
  shows "(\<forall>lo hi :: int. lo < hi \<longrightarrow>
            lo \<le> lo + (hi - lo) sdiv 2 \<and> lo + (hi - lo) sdiv 2 < hi) \<and>
         (\<forall>r. lower_bound memcmp index needle needle_len = Inr r \<longrightarrow> 0 \<le> r \<and> r \<le> length_idx index) \<and>
         (\<forall>r. upper_bound memcmp index needle needle_len = Inr r \<longrightarrow> 0 \<le> r \<and> r \<le> length_idx index) \<and>
         (iso_memcmp memcmp \<and> wf_index index \<and> 0 \<le> needle_len \<and>
          readable needle needle_len \<longrightarrow>
            (\<exists>r. lower_bound memcmp index needle needle_len = Inr r) \<and>
            (\<exists>r. upper_bound memcmp index needle needle_len = Inr r))"
proof (intro conjI allI impI)
  fix lo hi :: int assume "lo < hi"
  then have "(hi - lo) sdiv 2 = (hi - lo) div 2" by (simp add: signed_divide_int_def)
  with \<open>lo < hi\<close> show "lo \<le> lo + (hi - lo) sdiv 2" "lo + (hi - lo) sdiv 2 < hi" by linarith+
next
  fix r assume "lower_bound memcmp index needle needle_len = Inr r"
  with lower_bound_loop_range [OF assms, where memcmp = memcmp and needle = needle
      and needle_len = needle_len and r = r]
  show "0 \<le> r" "r \<le> length_idx index" by (simp_all add: lower_bound_def)
next
  fix r assume "upper_bound memcmp index needle needle_len = Inr r"
  with upper_bound_loop_range [OF assms, where memcmp = memcmp and needle = needle
      and needle_len = needle_len and r = r]
  show "0 \<le> r" "r \<le> length_idx index" by (simp_all add: upper_bound_def)
next
  assume h: "iso_memcmp memcmp \<and> wf_index index \<and> 0 \<le> needle_len \<and>
          readable needle needle_len"
  then have "iso_memcmp memcmp" "wf_index index" "0 \<le> needle_len" "readable needle needle_len"
    by simp_all
  from bounds_return [OF this]
  show "\<exists>r. lower_bound memcmp index needle needle_len = Inr r"
    "\<exists>r. upper_bound memcmp index needle needle_len = Inr r" by blast+
qed

theorem bound_loops_return_in_range_witness:
  "0 \<le> length_idx banana_index \<and> iso_memcmp musl_memcmp \<and> wf_index banana_index \<and> (0::int) \<le> 3 \<and>
   readable (bytes ''ana'') 3 \<and>
   (\<exists>r. lower_bound musl_memcmp banana_index (bytes ''ana'') 3 = Inr r \<and> 0 \<le> r \<and> r \<le> length_idx banana_index) \<and>
   (\<exists>r. upper_bound musl_memcmp banana_index (bytes ''ana'') 3 = Inr r \<and> 0 \<le> r \<and> r \<le> length_idx banana_index)"
proof -
  have h0: "iso_memcmp musl_memcmp" by (rule musl_memcmp_iso)
  have h1: "0 \<le> length_idx banana_index" by code_simp
  have h2: "wf_index banana_index" by code_simp
  have h3: "(0::int) \<le> 3" by simp
  have h4: "readable (bytes ''ana'') 3" by code_simp
  from bound_loops_return_in_range [OF h1, where memcmp = musl_memcmp
      and needle = "bytes ''ana''" and needle_len = 3] h0 h1 h2 h3 h4
  show ?thesis by blast
qed

text \<open>
  C10. \<open>get_index_length\<close> returns \<open>0\<close> for an absent index and the length field
  otherwise; an index that \<open>create_index\<close> has built has the requested length,
  which is positive.
\<close>

theorem get_index_length_cases:
  "get_index_length None = 0 \<and>
   get_index_length (Some idx) = length_idx idx \<and>
   (create_index malloc_ok libsais buffer len = Inr (Some idx) \<longrightarrow>
      get_index_length (Some idx) = len \<and> 0 < len)"
  by (auto simp: get_index_length_def create_index_def split: if_splits sum.splits prod.splits)

theorem get_index_length_cases_witness:
  "create_index (\<lambda>k. True) (\<lambda>T n. (0, [5, 3, 1, 0, 4, 2])) (bytes ''banana'') 6
     = Inr (Some banana_index) \<and>
   get_index_length (Some banana_index) = 6 \<and> (0::int) < 6"
proof -
  have h: "create_index (\<lambda>k. True) (\<lambda>T n. (0, [5, 3, 1, 0, 4, 2])) (bytes ''banana'') 6
     = Inr (Some banana_index)" by code_simp
  from get_index_length_cases [where idx = banana_index and malloc_ok = "\<lambda>k. True"
      and libsais = "\<lambda>T n. (0, [5, 3, 1, 0, 4, 2])" and buffer = "bytes ''banana''"
      and len = 6] h
  show ?thesis by blast
qed

end
